theory Spec2Isabelle
  imports Main "HOL-Library.Word" "HOL-Library.Signed_Division"
begin

unbundle bit_operations_syntax

section \<open>The console driver of kernel/console.c\<close>

text \<open>
  The driver is modelled over one record holding every global it touches. C \<^verbatim>\<open>int\<close>
  and \<^verbatim>\<open>uint\<close> values that take part in bit operations or may wrap are 32-bit words,
  a \<^verbatim>\<open>ushort\<close> screen cell is a 16-bit word and a \<^verbatim>\<open>char\<close> is an 8-bit word. The
  target is 32-bit x86 with gcc, where plain \<^verbatim>\<open>char\<close> is signed: promoting a
  \<^verbatim>\<open>char\<close> to \<^verbatim>\<open>int\<close> is \<open>scast\<close>, promoting a \<^verbatim>\<open>ushort\<close> is \<open>ucast\<close>, and
  storing an \<^verbatim>\<open>int\<close> into a narrower object truncates (\<open>ucast\<close>).
  Counters that stay small (loop indices, the cursor position once read from the
  two cursor bytes, the flags) are \<open>nat\<close> or \<open>int\<close>.
\<close>

type_synonym cint = "32 word"
type_synonym ushort = "16 word"
type_synonym cchar = "8 word"

text \<open>How a call can fail to return: \<^verbatim>\<open>panic\<close> (which never returns), or the endless
  loop of \<^verbatim>\<open>consputc\<close> once \<^verbatim>\<open>panicked\<close> is set.\<close>

datatype halt = Panic | Spin

record console =
  crt :: "nat \<Rightarrow> ushort"              \<comment> \<open>CGA memory, \<^verbatim>\<open>crt[i]\<close>\<close>
  cursor :: "16 word"                  \<comment> \<open>CRT controller registers 14 (high byte) and 15 (low byte)\<close>
  uart :: "cint list"                  \<comment> \<open>arguments of the \<^verbatim>\<open>uartputc\<close> calls so far, oldest first\<close>
  currentColor :: cint
  panicked :: int
  input_buf :: "nat \<Rightarrow> cchar"         \<comment> \<open>\<^verbatim>\<open>input.buf\<close>, indices 0..127\<close>
  input_r :: cint
  input_w :: cint
  input_e :: cint
  backgroundBackup :: "nat \<Rightarrow> cchar"  \<comment> \<open>\<^verbatim>\<open>char backgroundBackup[230]\<close>\<close>
  flagC :: int
  flagO :: int
  menuStatus :: int
  currentSelection :: int
  doprocdump :: int                    \<comment> \<open>the local of \<^verbatim>\<open>consoleintr\<close>\<close>

definition clrs :: "cint list" where
  "clrs = [0x0000, 0x0000, 0x0100, 0x1000, 0x0200, 0x2000, 0x0300, 0x3000,
           0x0400, 0x4000, 0x0500, 0x5000, 0x0600, 0x6000, 0x0700, 0x7000]"

definition BACKSPACE :: cint where
  "BACKSPACE = 0x100"

definition INPUT_BUF :: nat where
  "INPUT_BUF = 128"

text \<open>\<^verbatim>\<open>#define C(x) ((x)-'@')\<close> and \<^verbatim>\<open>#define A(x) (x + 100)\<close>.\<close>

definition C :: "char \<Rightarrow> cint" where
  "C x = of_char x - of_char CHR ''@''"

definition A :: "char \<Rightarrow> cint" where
  "A x = of_char x + 100"

subsection \<open>Screen output\<close>

text \<open>\<^verbatim>\<open>crt[i] = (crt[i]&0xff) | currentColor\<close>, the body of both repaint loops.\<close>

definition paint_cell :: "nat \<Rightarrow> console \<Rightarrow> console" where
  "paint_cell i s =
     s\<lparr>crt := (crt s)(i := ucast ((ucast (crt s i) AND 0xff) OR currentColor s))\<rparr>"

definition repaint :: "console \<Rightarrow> console" where
  "repaint s = fold paint_cell [0..<2000] s"

definition repaintLastRow :: "console \<Rightarrow> console" where
  "repaintLastRow s = fold paint_cell [1840..<1920] s"

text \<open>The first part of \<^verbatim>\<open>cgaputc\<close>: read the cursor, then move it for a newline or a
  \<^verbatim>\<open>BACKSPACE\<close>, or store the character and advance. The result is the computed
  position \<^verbatim>\<open>pos\<close> and the state.\<close>

definition cga_advance :: "console \<Rightarrow> cint \<Rightarrow> int \<times> console" where
  "cga_advance s c =
     (let pos = uint (cursor s) in
      if c = 0x0A then (pos + (80 - pos mod 80), s)
      else if c = BACKSPACE then (if pos > 0 then pos - 1 else pos, s)
      else (pos + 1, s\<lparr>crt := (crt s)(nat pos := ucast ((c AND 0xff) OR currentColor s))\<rparr>))"

text \<open>The body of \<^verbatim>\<open>if((pos/80) >= 24)\<close>: \<^verbatim>\<open>memmove\<close> of 23 rows, \<^verbatim>\<open>pos -= 80\<close>,
  \<^verbatim>\<open>memset\<close> of the cells from the new position up to cell 1920, and the repaint of
  cells 1840..1919 when the colour is not \<^verbatim>\<open>0x0700\<close>.\<close>

definition scroll_memmove :: "(nat \<Rightarrow> ushort) \<Rightarrow> nat \<Rightarrow> ushort" where
  "scroll_memmove m = (\<lambda>i. if i < 23 * 80 then m (i + 80) else m i)"

definition scroll_memset :: "nat \<Rightarrow> (nat \<Rightarrow> ushort) \<Rightarrow> nat \<Rightarrow> ushort" where
  "scroll_memset p m = (\<lambda>i. if p \<le> i \<and> i < 24 * 80 then 0 else m i)"

definition cga_scroll :: "int \<Rightarrow> console \<Rightarrow> int \<times> console" where
  "cga_scroll pos s =
     (let s1 = s\<lparr>crt := scroll_memmove (crt s)\<rparr>;
          pos1 = pos - 80;
          s2 = s1\<lparr>crt := scroll_memset (nat pos1) (crt s1)\<rparr>
      in (pos1, if currentColor s2 \<noteq> 0x0700 then repaintLastRow s2 else s2))"

definition cgaputc :: "console \<Rightarrow> cint \<Rightarrow> halt + console" where
  "cgaputc s c =
     (let (pos, s1) = cga_advance s c in
      if pos < 0 \<or> pos > 25 * 80 then Inl Panic
      else
        let (pos2, s2) = (if pos div 80 \<ge> 24 then cga_scroll pos s1 else (pos, s1))
        in Inr (s2\<lparr>cursor := word_of_int pos2,
                   crt := (crt s2)(nat pos2 := ucast (0x20 OR currentColor s2))\<rparr>))"

definition consputc :: "console \<Rightarrow> cint \<Rightarrow> halt + console" where
  "consputc s c =
     (if panicked s \<noteq> 0 then Inl Spin
      else cgaputc (s\<lparr>uart := uart s @ (if c = BACKSPACE then [0x08, 0x20, 0x08] else [c])\<rparr>) c)"

subsection \<open>The colour menu\<close>

text \<open>The 230 characters of \<^verbatim>\<open>menustr\<close>: ten rows of 23.\<close>

definition menustr :: "cchar list" where
  "menustr = map of_char
     (''/---<FG>--- ---<BG>---'' @ [CHR 0x5C] @
      ''|Black     |Black     |'' @
      ''|Blue      |Blue      |'' @
      ''|Green     |Green     |'' @
      ''|Aqua      |Aqua      |'' @
      ''|Red       |Red       |'' @
      ''|Purple    |Purple    |'' @
      ''|Yellow    |Yellow    |'' @
      ''|White     |White     |'' @
      [CHR 0x5C] @ ''---------------------/'')"

text \<open>\<^verbatim>\<open>if(i % 23 == 0) startingPosition = 57 + 80 * (i / 23);\<close> as the three overlay
  loops have it: the value of \<^verbatim>\<open>startingPosition\<close> used by iteration \<open>i\<close>.\<close>

definition row_start :: "nat \<Rightarrow> nat \<Rightarrow> nat" where
  "row_start i sp = (if i mod 23 = 0 then 57 + 80 * (i div 23) else sp)"

text \<open>The three overlay loops run \<open>i\<close> from 0 to 229 with \<^verbatim>\<open>startingPosition\<close>
  starting at 57; each body below is one iteration, on the pair of
  \<^verbatim>\<open>startingPosition\<close> and the state.\<close>

definition showMenu_body :: "nat \<Rightarrow> nat \<times> console \<Rightarrow> nat \<times> console" where
  "showMenu_body i = (\<lambda>(sp, s).
     let sp1 = row_start i sp in
       (sp1 + 1,
        s\<lparr>crt := (crt s)(sp1 := ucast (((scast (menustr ! i) :: cint) AND 0xff) OR 0x0f00))\<rparr>))"

definition showMenu :: "console \<Rightarrow> console" where
  "showMenu s = snd (fold showMenu_body [0..<230] (57, s))"

definition saveBackground_body :: "nat \<Rightarrow> nat \<times> console \<Rightarrow> nat \<times> console" where
  "saveBackground_body i = (\<lambda>(sp, s).
     let sp1 = row_start i sp in
       (sp1 + 1, s\<lparr>backgroundBackup := (backgroundBackup s)(i := ucast (crt s sp1))\<rparr>))"

definition saveBackground :: "console \<Rightarrow> console" where
  "saveBackground s = snd (fold saveBackground_body [0..<230] (57, s))"

definition loadBackground_body :: "nat \<Rightarrow> nat \<times> console \<Rightarrow> nat \<times> console" where
  "loadBackground_body i = (\<lambda>(sp, s).
     let sp1 = row_start i sp in
       (sp1 + 1,
        s\<lparr>crt := (crt s)(sp1 := ucast ((scast (backgroundBackup s i) :: cint) OR currentColor s))\<rparr>))"

definition loadBackground :: "console \<Rightarrow> console" where
  "loadBackground s = snd (fold loadBackground_body [0..<230] (57, s))"

text \<open>\<^verbatim>\<open>getColor\<close> and \<^verbatim>\<open>getBrightColor\<close> read the global \<^verbatim>\<open>currentSelection\<close>;
  \<^verbatim>\<open>%\<close> on a C \<^verbatim>\<open>int\<close> truncates towards zero (\<open>smod\<close>). Outside 0..15 the read
  of \<^verbatim>\<open>clrs\<close> is out of bounds in C; every theorem about these two functions assumes
  the selection in range.\<close>

definition getColor :: "console \<Rightarrow> console" where
  "getColor s =
     (if currentSelection s smod 2 \<noteq> 0
      then s\<lparr>currentColor := (currentColor s AND 0x0fff) OR clrs ! nat (currentSelection s)\<rparr>
      else s\<lparr>currentColor := (currentColor s AND 0xf0ff) OR clrs ! nat (currentSelection s)\<rparr>)"

definition getBrightColor :: "console \<Rightarrow> console" where
  "getBrightColor s =
     (if currentSelection s smod 2 \<noteq> 0
      then s\<lparr>currentColor :=
              (currentColor s AND 0x0fff) OR (clrs ! nat (currentSelection s) + 0x8000)\<rparr>
      else s\<lparr>currentColor :=
              (currentColor s AND 0xf0ff) OR (clrs ! nat (currentSelection s) + 0x0800)\<rparr>)"

definition handleInput :: "console \<Rightarrow> cchar \<Rightarrow> console" where
  "handleInput s c =
     (if c = of_char CHR ''s''
        then s\<lparr>currentSelection := (currentSelection s + 2) smod 16\<rparr>
      else if c = of_char CHR ''w''
        then s\<lparr>currentSelection := (currentSelection s - 2 + 16) smod 16\<rparr>
      else if c = of_char CHR ''d'' \<or> c = of_char CHR ''a''
        then s\<lparr>currentSelection :=
                (if currentSelection s smod 2 \<noteq> 0 then currentSelection s - 1
                 else currentSelection s + 1)\<rparr>
      else if c = of_char CHR ''e'' then repaint (getColor s)
      else if c = of_char CHR ''r'' then repaint (getBrightColor s)
      else s)"

definition computeLowerBound :: "int \<Rightarrow> int" where
  "computeLowerBound x = (if x smod 2 \<noteq> 0 then 149 else 138) + (x sdiv 2) * 80"

text \<open>\<^verbatim>\<open>crt[i] = (crt[i]&0xff) | 0xf000\<close> for the ten cells from the lower bound (which
  is at least 138 for a selection in 0..15).\<close>

definition highlight_cell :: "nat \<Rightarrow> console \<Rightarrow> console" where
  "highlight_cell i s =
     s\<lparr>crt := (crt s)(i := ucast (((ucast (crt s i) :: cint) AND 0xff) OR 0xf000))\<rparr>"

definition displaySelection :: "console \<Rightarrow> int \<Rightarrow> console" where
  "displaySelection s cur =
     (let lowerbound = computeLowerBound cur in
      fold highlight_cell [nat lowerbound..<nat (lowerbound + 10)] s)"

subsection \<open>Keyboard input\<close>

definition clearFlags :: "console \<Rightarrow> console" where
  "clearFlags s = s\<lparr>flagC := 0, flagO := 0\<rparr>"

text \<open>The loop of the kill-line case:
  \<^verbatim>\<open>while(input.e != input.w && input.buf[(input.e-1) % INPUT_BUF] != '\n')\<close>.\<close>

function killLine :: "console \<Rightarrow> halt + console" where
  "killLine s =
     (if input_e s \<noteq> input_w s \<and> input_buf s (unat (input_e s - 1) mod INPUT_BUF) \<noteq> 0x0A
      then (case consputc (s\<lparr>input_e := input_e s - 1\<rparr>) BACKSPACE of
              Inl h \<Rightarrow> Inl h
            | Inr s' \<Rightarrow> killLine s')
      else Inr s)"
  by pat_completeness auto
termination
proof (relation "measure (\<lambda>s. unat (input_e s - input_w s))")
  show "wf (measure (\<lambda>s. unat (input_e s - input_w s)))"
    by simp
next
  fix s s'
  assume run: "input_e s \<noteq> input_w s \<and> input_buf s (unat (input_e s - 1) mod INPUT_BUF) \<noteq> 0x0A"
    and put: "consputc (s\<lparr>input_e := input_e s - 1\<rparr>) BACKSPACE = Inr s'"
  have paint: "input_e (fold paint_cell xs t) = input_e t \<and>
               input_w (fold paint_cell xs t) = input_w t" for xs t
    by (induction xs arbitrary: t) (simp_all add: paint_cell_def)
  have last_row: "input_e (repaintLastRow t) = input_e t \<and>
                  input_w (repaintLastRow t) = input_w t" for t
    unfolding repaintLastRow_def by (rule paint)
  have same: "input_e s' = input_e s - 1 \<and> input_w s' = input_w s"
    using put
    by (auto simp: consputc_def cgaputc_def cga_advance_def cga_scroll_def Let_def
        last_row BACKSPACE_def split: if_splits)
  have "input_e s - input_w s \<noteq> 0"
    using run by simp
  then have "unat (input_e s - input_w s - 1) < unat (input_e s - input_w s)"
    by (simp add: unat_minus_one unat_gt_0)
  moreover have "input_e s' - input_w s' = input_e s - input_w s - 1"
    using same by simp
  ultimately show "(s', s) \<in> measure (\<lambda>s. unat (input_e s - input_w s))"
    by simp
qed

text \<open>One iteration of the \<^verbatim>\<open>while((c = getc()) >= 0)\<close> loop of \<^verbatim>\<open>consoleintr\<close>: the
  \<^verbatim>\<open>switch(c)\<close>. Locking and \<^verbatim>\<open>wakeup\<close> belong to the scheduler and leave the
  console state alone.\<close>

definition consoleintr_char :: "console \<Rightarrow> cint \<Rightarrow> halt + console" where
  "consoleintr_char s c =
     (if c = C CHR ''P'' then Inr (clearFlags (s\<lparr>doprocdump := 1\<rparr>))
      else if c = C CHR ''U'' then
        (case killLine s of Inl h \<Rightarrow> Inl h | Inr s' \<Rightarrow> Inr (clearFlags s'))
      else if c = C CHR ''H'' \<or> c = 0x7f then
        (if menuStatus s = 0 then
           (if input_e s \<noteq> input_w s then
              (case consputc (s\<lparr>input_e := input_e s - 1\<rparr>) BACKSPACE of
                 Inl h \<Rightarrow> Inl h
               | Inr s' \<Rightarrow> Inr (clearFlags s'))
            else Inr (clearFlags s))
         else Inr (clearFlags s))
      else if c = A CHR ''c'' then Inr (s\<lparr>flagC := 1, flagO := 0\<rparr>)
      else if c = A CHR ''o'' then
        (if flagO s \<noteq> 0 then Inr (clearFlags s)
         else if flagC s \<noteq> 0 then Inr (s\<lparr>flagO := 1\<rparr>)
         else Inr (clearFlags s))
      else if c = A CHR ''l'' then
        (if flagC s \<noteq> 0 \<and> flagO s \<noteq> 0 then
           (let s1 = (if menuStatus s \<noteq> 0 then loadBackground s else saveBackground s)
            in Inr (clearFlags (s1\<lparr>menuStatus := (if menuStatus s1 = 0 then 1 else 0)\<rparr>)))
         else Inr (clearFlags s))
      else if menuStatus s = 0 then
        (if c \<noteq> 0 \<and> input_e s - input_r s < of_nat INPUT_BUF then
           (let s1 = clearFlags s;
                c1 = (if c = 0x0D then 0x0A else c);
                s2 = s1\<lparr>input_buf := (input_buf s1)(unat (input_e s1) mod INPUT_BUF := ucast c1),
                        input_e := input_e s1 + 1\<rparr>
            in case consputc s2 c1 of
                 Inl h \<Rightarrow> Inl h
               | Inr s3 \<Rightarrow>
                   Inr (if c1 = 0x0A \<or> c1 = C CHR ''D'' \<or>
                           input_e s3 = input_r s3 + of_nat INPUT_BUF
                        then s3\<lparr>input_w := input_e s3\<rparr> else s3))
         else Inr s)
      else
        (let s1 = handleInput s (ucast c);
             s2 = showMenu s1;
             s3 = displaySelection s2 (currentSelection s2)
         in Inr (if c \<noteq> 0 then clearFlags s3 else s3)))"

text \<open>The whole loop, \<^verbatim>\<open>while((c = getc()) >= 0)\<close>. The list holds the results of the
  successive calls of \<^verbatim>\<open>getc\<close>; the loop is left at the first negative one (the
  comparison is on a signed \<^verbatim>\<open>int\<close>, \<open>sint\<close>), and what follows it in the list is not
  read. \<^verbatim>\<open>procdump\<close>, which is called after the loop when \<^verbatim>\<open>doprocdump\<close> is set, belongs
  to another file.\<close>

fun consoleintr_loop :: "console \<Rightarrow> cint list \<Rightarrow> halt + console" where
  "consoleintr_loop s [] = Inr s"
| "consoleintr_loop s (c # cs) =
     (if 0 \<le> sint c
      then (case consoleintr_char s c of Inl h \<Rightarrow> Inl h | Inr s' \<Rightarrow> consoleintr_loop s' cs)
      else Inr s)"

definition consoleintr :: "console \<Rightarrow> cint list \<Rightarrow> halt + console" where
  "consoleintr s cs = consoleintr_loop (s\<lparr>doprocdump := 0\<rparr>) cs"

subsection \<open>Reading a line\<close>

text \<open>
  \<^verbatim>\<open>consoleread\<close> either returns a value or reaches \<^verbatim>\<open>sleep(&input.r, &cons.lock)\<close>
  with nothing committed left to read. \<open>Sleep n\<close> keeps the remaining count: after the
  wake-up the loop goes on from the state it then finds, which is
  \<open>consoleread_loop\<close> again with that state, \<open>n\<close> and the bytes stored so far.
  \<open>killed\<close> is \<^verbatim>\<open>myproc()->killed\<close>. The count \<^verbatim>\<open>n\<close> only goes down while it is
  positive and \<^verbatim>\<open>target\<close> is its first value, so neither \<^verbatim>\<open>n < target\<close> nor
  \<^verbatim>\<open>target - n\<close> can wrap, and both are plain integers here. The list is what has
  been stored through \<^verbatim>\<open>dst\<close>, in order. The inode lock and the console lock are
  taken and released around the loop and leave the console state alone.
\<close>

datatype read_result = Return int | Sleep int

function consoleread_loop ::
  "bool \<Rightarrow> int \<Rightarrow> console \<Rightarrow> int \<Rightarrow> cchar list \<Rightarrow> read_result \<times> cchar list \<times> console" where
  "consoleread_loop killed target s n dst =
     (if n > 0 then
        (if input_r s = input_w s then
           (if killed then (Return (- 1), dst, s) else (Sleep n, dst, s))
         else
           (let c = (scast (input_buf s (unat (input_r s) mod INPUT_BUF)) :: cint);
                s1 = s\<lparr>input_r := input_r s + 1\<rparr>
            in if c = C CHR ''D'' then
                 (Return (target - n), dst,
                  if n < target then s1\<lparr>input_r := input_r s1 - 1\<rparr> else s1)
               else if c = 0x0A then (Return (target - (n - 1)), dst @ [ucast c], s1)
               else consoleread_loop killed target s1 (n - 1) (dst @ [ucast c])))
      else (Return (target - n), dst, s))"
  by pat_completeness auto
termination
  by (relation "measure (\<lambda>(killed, target, s, n, dst). nat n)") auto

declare killLine.simps [simp del] consoleread_loop.simps [simp del]

definition consoleread :: "console \<Rightarrow> bool \<Rightarrow> int \<Rightarrow> read_result \<times> cchar list \<times> console" where
  "consoleread s killed n = consoleread_loop killed n s n []"

text \<open>\<^verbatim>\<open>consolewrite\<close>: \<^verbatim>\<open>consputc(buf[i] & 0xff)\<close> for each byte.\<close>

fun consolewrite :: "console \<Rightarrow> cchar list \<Rightarrow> halt + console" where
  "consolewrite s [] = Inr s"
| "consolewrite s (b # bs) =
     (case consputc s ((scast b :: cint) AND 0xff) of
        Inl h \<Rightarrow> Inl h
      | Inr s' \<Rightarrow> consolewrite s' bs)"

section \<open>Notions used in the statements\<close>

text \<open>A screen cell is a character byte (low) and an attribute byte (high); the attribute
  is a foreground nibble (low) and a background nibble (high). In a 16-bit colour value
  such as \<^verbatim>\<open>currentColor\<close> the foreground nibble is bits 8..11 and the background
  nibble bits 12..15.\<close>

definition char_byte :: "ushort \<Rightarrow> cchar" where
  "char_byte x = ucast x"

definition attr_byte :: "ushort \<Rightarrow> cchar" where
  "attr_byte x = ucast (drop_bit 8 x)"

definition color_attr :: "cint \<Rightarrow> cchar" where
  "color_attr col = ucast (drop_bit 8 col)"

definition fg_nibble :: "cint \<Rightarrow> cint" where
  "fg_nibble col = drop_bit 8 col AND 0xf"

definition bg_nibble :: "cint \<Rightarrow> cint" where
  "bg_nibble col = drop_bit 12 col AND 0xf"

text \<open>The value \<^verbatim>\<open>(x&0xff) | col\<close> stored back into a cell.\<close>

definition painted :: "cint \<Rightarrow> ushort \<Rightarrow> ushort" where
  "painted col x = ucast ((ucast x AND 0xff) OR col)"

text \<open>The screen position of overlay entry \<open>i\<close> (row \<open>i div 23\<close>, column
  \<open>57 + i mod 23\<close>), its inverse, and the overlay region itself: columns 57..79 of rows
  0..9.\<close>

definition cell :: "nat \<Rightarrow> nat" where
  "cell i = 57 + 80 * (i div 23) + i mod 23"

definition overlay_index :: "nat \<Rightarrow> nat" where
  "overlay_index p = 23 * (p div 80) + (p mod 80 - 57)"

definition in_overlay :: "nat \<Rightarrow> bool" where
  "in_overlay p = (57 \<le> p mod 80 \<and> p div 80 < 10)"

text \<open>The globals as the file initialises them (\<^verbatim>\<open>currentColor = 0x0700\<close>, every other
  static zero), over a screen of blanks in the default attribute with the cursor in the top
  left corner.\<close>

definition blank_console :: console where
  "blank_console =
     \<lparr>crt = (\<lambda>_. 0x0720), cursor = 0, uart = [], currentColor = 0x0700, panicked = 0,
      input_buf = (\<lambda>_. 0), input_r = 0, input_w = 0, input_e = 0,
      backgroundBackup = (\<lambda>_. 0), flagC = 0, flagO = 0, menuStatus = 0,
      currentSelection = 0, doprocdump = 0\<rparr>"


definition row24_marked :: console where
  "row24_marked = blank_console\<lparr>cursor := 1919, crt := (\<lambda>_. 0x0720)(1921 := 0x0741)\<rparr>"



definition row24_entry :: console where
  "row24_entry =
     blank_console\<lparr>cursor := 1950, crt := (\<lambda>_. 0x0720)(1845 := 0x0742, 1925 := 0x0741)\<rparr>"

text \<open>The cursor on the first cell of the overlay region, where the next byte written
  lands.\<close>

definition at_overlay :: console where
  "at_overlay = blank_console\<lparr>cursor := 57\<rparr>"

text \<open>The ten cells that \<^verbatim>\<open>displaySelection(currentSelection)\<close> highlights.\<close>

definition selected_cell :: "console \<Rightarrow> nat \<Rightarrow> bool" where
  "selected_cell s i \<longleftrightarrow>
     nat (computeLowerBound (currentSelection s)) \<le> i \<and>
     i < nat (computeLowerBound (currentSelection s) + 10)"

text \<open>A selection on the third row of the menu, background column.\<close>

definition green_bg_selected :: console where
  "green_bg_selected = blank_console\<lparr>menuStatus := 1, currentSelection := 5\<rparr>"

text \<open>A character with the top bit set (here \<^verbatim>\<open>0x80\<close>) on the first cell of the overlay
  region, in the default attribute.\<close>

definition high_char_screen :: console where
  "high_char_screen = blank_console\<lparr>crt := (\<lambda>_. 0x0720)(57 := 0x0780)\<rparr>"

text \<open>The invariant of the input buffer on the wrapping 32-bit indices: the committed
  part \<open>w - r\<close> is within the typed part \<open>e - r\<close>, which is at most \<^verbatim>\<open>INPUT_BUF\<close>. Lemma
  \<open>buffer_inv_unwrapped\<close> below shows it is \<open>read \<le> write \<le> edit \<le> read + 128\<close> on
  un-wrapped indices.\<close>

definition buffer_inv :: "console \<Rightarrow> bool" where
  "buffer_inv s \<longleftrightarrow>
     unat (input_w s - input_r s) \<le> unat (input_e s - input_r s) \<and>
     unat (input_e s - input_r s) \<le> INPUT_BUF"

text \<open>The \<open>i\<close>-th byte from the read index on.\<close>

definition pending :: "console \<Rightarrow> nat \<Rightarrow> cchar" where
  "pending s i = input_buf s (unat (input_r s + of_nat i) mod INPUT_BUF)"

text \<open>The characters that reach the \<^verbatim>\<open>default\<close> case of the \<^verbatim>\<open>switch\<close>, and those that
  the closed-menu branch of that case drops because the buffer is full.\<close>

definition default_case :: "cint \<Rightarrow> bool" where
  "default_case c \<longleftrightarrow>
     c \<noteq> C CHR ''P'' \<and> c \<noteq> C CHR ''U'' \<and> c \<noteq> C CHR ''H'' \<and> c \<noteq> 0x7f \<and>
     c \<noteq> A CHR ''c'' \<and> c \<noteq> A CHR ''o'' \<and> c \<noteq> A CHR ''l''"

definition dropped :: "console \<Rightarrow> cint \<Rightarrow> bool" where
  "dropped s c \<longleftrightarrow>
     default_case c \<and> menuStatus s = 0 \<and> \<not> input_e s - input_r s < of_nat INPUT_BUF"

text \<open>The line \<^verbatim>\<open>"hi\n"\<close> committed and unread; the letters \<^verbatim>\<open>"abc"\<close> typed and not
  committed, once with the menu closed and once with it open; \<^verbatim>\<open>flagC\<close> set alone; and a
  full buffer (128 committed bytes, none read) with \<^verbatim>\<open>flagC\<close> set.\<close>

definition hi_line :: console where
  "hi_line = blank_console\<lparr>input_buf := (\<lambda>_. 0)(0 := 0x68, 1 := 0x69, 2 := 0x0A),
                            input_w := 3, input_e := 3\<rparr>"

definition abc_typed :: console where
  "abc_typed = blank_console\<lparr>input_buf := (\<lambda>_. 0)(0 := 0x61, 1 := 0x62, 2 := 0x63),
                              input_e := 3\<rparr>"

definition abc_typed_menu_open :: console where
  "abc_typed_menu_open = abc_typed\<lparr>menuStatus := 1\<rparr>"

definition armed_c :: console where
  "armed_c = blank_console\<lparr>flagC := 1\<rparr>"

definition full_armed_c :: console where
  "full_armed_c = blank_console\<lparr>flagC := 1, input_w := 128, input_e := 128\<rparr>"

text \<open>What a call of \<^verbatim>\<open>consoleread_loop\<close> with remaining count \<open>n\<close> has done when it has
  stored \<open>k\<close> more bytes: they are the \<open>k\<close> bytes from the read index on, none of them the
  end-of-input marker (\<^verbatim>\<open>C('D')\<close>, 4) and none but the last a newline, all within the
  committed part; nothing but the read index has changed; and the loop has stopped in one
  of four ways: after storing a newline; with the count used up; at the marker, which is
  not stored and is pushed back (the read index stays on it) exactly when \<^verbatim>\<open>n < target\<close>
  held; or with no committed byte left, which returns \<open>- 1\<close> for a killed process and
  sleeps otherwise.\<close>

definition read_outcome ::
  "bool \<Rightarrow> int \<Rightarrow> console \<Rightarrow> int \<Rightarrow> cchar list \<Rightarrow> nat \<Rightarrow>
   read_result \<times> cchar list \<times> console \<Rightarrow> bool" where
  "read_outcome killed target s n dst k out \<longleftrightarrow>
     (case out of (res, dst', s') \<Rightarrow>
        s' = s\<lparr>input_r := input_r s'\<rparr> \<and>
        dst' = dst @ map (pending s) [0..<k] \<and>
        int k \<le> max n 0 \<and>
        (\<forall>i<k. input_r s + of_nat i \<noteq> input_w s \<and> pending s i \<noteq> 4 \<and>
                (Suc i < k \<longrightarrow> pending s i \<noteq> 0x0A)) \<and>
        (res = Return (target - (n - int k)) \<and> 0 < k \<and> pending s (k - 1) = 0x0A \<and>
           input_r s' = input_r s + of_nat k
         \<or> res = Return (target - (n - int k)) \<and> int k = max n 0 \<and>
           input_r s' = input_r s + of_nat k
         \<or> res = Return (target - (n - int k)) \<and> int k < n \<and>
           input_r s + of_nat k \<noteq> input_w s \<and> pending s k = 4 \<and>
           input_r s' = (if n - int k < target then input_r s + of_nat k
                         else input_r s + of_nat k + 1)
         \<or> res = (if killed then Return (- 1) else Sleep (n - int k)) \<and> int k < n \<and>
           input_r s + of_nat k = input_w s \<and> input_r s' = input_w s))"

text \<open>The characters the handler ignores as far as the key sequence goes: NUL, and a
  dropped one.\<close>

definition ignored :: "console \<Rightarrow> cint \<Rightarrow> bool" where
  "ignored s c \<longleftrightarrow> c = 0 \<or> dropped s c"

text \<open>A full buffer with both flags clear.\<close>

definition full_buffer :: console where
  "full_buffer = blank_console\<lparr>input_w := 128, input_e := 128\<rparr>"


text \<open>The letter \<^verbatim>\<open>a\<close> followed by the end-of-input marker, committed and unread.\<close>

definition a_then_eof :: console where
  "a_then_eof = blank_console\<lparr>input_buf := (\<lambda>_. 0)(0 := 0x61, 1 := 0x04),
                               input_w := 2, input_e := 2\<rparr>"

text \<open>The three calls of the menu branch of the \<^verbatim>\<open>default\<close> case:
  \<^verbatim>\<open>handleInput(c); showMenu(); displaySelection(currentSelection);\<close>\<close>

definition menu_redraw :: "console \<Rightarrow> cchar \<Rightarrow> console" where
  "menu_redraw s c =
     (let s1 = handleInput s c; s2 = showMenu s1 in displaySelection s2 (currentSelection s2))"

section \<open>The loops in closed form\<close>

lemma crt_update_cong: "f = g \<Longrightarrow> s\<lparr>crt := f\<rparr> = s\<lparr>crt := g\<rparr>"
  by simp

lemma fold_paint_cell:
  "fold paint_cell [lo..<hi] s =
     s\<lparr>crt := (\<lambda>i. if lo \<le> i \<and> i < hi then painted (currentColor s) (crt s i) else crt s i)\<rparr>"
proof (induction hi)
  case 0
  show ?case by simp
next
  case (Suc hi)
  show ?case
  proof (cases "lo \<le> hi")
    case True
    then have "fold paint_cell [lo..<Suc hi] s = paint_cell hi (fold paint_cell [lo..<hi] s)"
      by simp
    also have "\<dots> = s\<lparr>crt := (\<lambda>i. if lo \<le> i \<and> i < Suc hi
                 then painted (currentColor s) (crt s i) else crt s i)\<rparr>"
      unfolding Suc using True
      by (auto simp add: paint_cell_def painted_def fun_eq_iff intro!: crt_update_cong)
    finally show ?thesis .
  next
    case False
    then have "(\<lambda>i. if lo \<le> i \<and> i < Suc hi
                 then painted (currentColor s) (crt s i) else crt s i) = crt s"
      by (auto simp add: fun_eq_iff)
    with False show ?thesis by simp
  qed
qed

lemma repaint_eq:
  "repaint s = s\<lparr>crt := (\<lambda>i. if i < 2000 then painted (currentColor s) (crt s i) else crt s i)\<rparr>"
  unfolding repaint_def fold_paint_cell by simp

lemma repaintLastRow_eq:
  "repaintLastRow s =
     s\<lparr>crt := (\<lambda>i. if 1840 \<le> i \<and> i < 1920 then painted (currentColor s) (crt s i)
                    else crt s i)\<rparr>"
  unfolding repaintLastRow_def fold_paint_cell by simp

lemma fold_highlight_cell:
  "fold highlight_cell [lo..<hi] s =
     s\<lparr>crt := (\<lambda>i. if lo \<le> i \<and> i < hi then painted 0xf000 (crt s i) else crt s i)\<rparr>"
proof (induction hi)
  case 0
  show ?case by simp
next
  case (Suc hi)
  show ?case
  proof (cases "lo \<le> hi")
    case True
    then have "fold highlight_cell [lo..<Suc hi] s =
               highlight_cell hi (fold highlight_cell [lo..<hi] s)"
      by simp
    also have "\<dots> = s\<lparr>crt := (\<lambda>i. if lo \<le> i \<and> i < Suc hi
                 then painted 0xf000 (crt s i) else crt s i)\<rparr>"
      unfolding Suc using True
      by (auto simp add: highlight_cell_def painted_def fun_eq_iff intro!: crt_update_cong)
    finally show ?thesis .
  next
    case False
    then have "(\<lambda>i. if lo \<le> i \<and> i < Suc hi
                 then painted 0xf000 (crt s i) else crt s i) = crt s"
      by (auto simp add: fun_eq_iff)
    with False show ?thesis by simp
  qed
qed

lemma displaySelection_eq:
  "displaySelection s cur =
     s\<lparr>crt := (\<lambda>i. if nat (computeLowerBound cur) \<le> i \<and> i < nat (computeLowerBound cur + 10)
                    then painted 0xf000 (crt s i) else crt s i)\<rparr>"
  unfolding displaySelection_def Let_def fold_highlight_cell by simp

lemma cell_divmod:
  "cell j div 80 = j div 23 \<and> cell j mod 80 = 57 + j mod 23"
proof -
  have small: "57 + j mod 23 < 80"
    by simp
  have "cell j = (57 + j mod 23) + (j div 23) * 80"
    by (simp add: cell_def)
  then have "cell j div 80 = (57 + j mod 23) div 80 + j div 23"
    and "cell j mod 80 = (57 + j mod 23) mod 80"
    by (simp_all only: div_mult_self1 mod_mult_self1)
  with small show ?thesis
    by (simp only: div_less mod_less) simp
qed

lemma overlay_index_cell: "overlay_index (cell j) = j"
  by (simp add: overlay_index_def cell_divmod)

lemma overlay_index_divmod:
  assumes "57 \<le> p mod 80"
  shows "overlay_index p div 23 = p div 80 \<and> overlay_index p mod 23 = p mod 80 - 57"
proof -
  have small: "p mod 80 - 57 < 23"
    using assms by simp
  have "overlay_index p = (p mod 80 - 57) + (p div 80) * 23"
    by (simp add: overlay_index_def)
  then have "overlay_index p div 23 = (p mod 80 - 57) div 23 + p div 80"
    and "overlay_index p mod 23 = (p mod 80 - 57) mod 23"
    by (simp_all only: div_mult_self1 mod_mult_self1)
  with small show ?thesis
    by (simp only: div_less mod_less) simp
qed

lemma cell_overlay_index:
  assumes "57 \<le> p mod 80"
  shows "cell (overlay_index p) = p"
  using assms by (simp add: cell_def overlay_index_divmod)

lemma eq_cell_iff: "p = cell n \<longleftrightarrow> 57 \<le> p mod 80 \<and> overlay_index p = n"
proof
  assume "p = cell n"
  then show "57 \<le> p mod 80 \<and> overlay_index p = n"
    by (simp add: cell_divmod overlay_index_cell)
next
  assume "57 \<le> p mod 80 \<and> overlay_index p = n"
  then show "p = cell n"
    using cell_overlay_index[of p] by simp
qed

lemma in_overlay_cell: "in_overlay (cell j) \<longleftrightarrow> j < 230"
  by (auto simp add: in_overlay_def cell_divmod)

lemma overlay_index_less:
  "57 \<le> p mod 80 \<Longrightarrow> overlay_index p < 230 \<longleftrightarrow> p div 80 < 10"
  unfolding overlay_index_def by auto

lemma row_start_cell:
  "row_start i (if i = 0 then 57 else cell (i - 1) + 1) = cell i"
proof (cases i)
  case 0
  then show ?thesis by (simp add: row_start_def cell_def)
next
  case (Suc k)
  have "Suc k mod 23 \<noteq> 0 \<Longrightarrow> Suc k div 23 = k div 23 \<and> Suc k mod 23 = Suc (k mod 23)"
    by (auto simp add: mod_Suc div_Suc split: if_splits)
  then show ?thesis
    using Suc by (auto simp add: row_start_def cell_def)
qed

lemma saveBackground_fold:
  "fold saveBackground_body [0..<n] (57, s) =
   (if n = 0 then 57 else cell (n - 1) + 1,
    s\<lparr>backgroundBackup :=
        (\<lambda>j. if j < n then ucast (crt s (cell j)) else backgroundBackup s j)\<rparr>)"
proof (induction n)
  case 0
  show ?case by simp
next
  case (Suc n)
  have "fold saveBackground_body [0..<Suc n] (57, s) =
        saveBackground_body n (fold saveBackground_body [0..<n] (57, s))"
    by simp
  also have "\<dots> = saveBackground_body n (if n = 0 then 57 else cell (n - 1) + 1,
    s\<lparr>backgroundBackup :=
        (\<lambda>j. if j < n then ucast (crt s (cell j)) else backgroundBackup s j)\<rparr>)"
    by (simp only: Suc)
  also have "\<dots> = (cell n + 1,
    s\<lparr>backgroundBackup :=
        (\<lambda>j. if j < n then ucast (crt s (cell j)) else backgroundBackup s j)
        (n := ucast (crt s (cell n)))\<rparr>)"
    by (simp add: saveBackground_body_def Let_def row_start_cell del: One_nat_def)
  also have "\<dots> = (cell n + 1,
    s\<lparr>backgroundBackup :=
        (\<lambda>j. if j < Suc n then ucast (crt s (cell j)) else backgroundBackup s j)\<rparr>)"
    by (auto simp add: fun_eq_iff less_Suc_eq)
  finally show ?case by simp
qed

lemma saveBackground_eq:
  "saveBackground s =
     s\<lparr>backgroundBackup :=
         (\<lambda>j. if j < 230 then ucast (crt s (cell j)) else backgroundBackup s j)\<rparr>"
  unfolding saveBackground_def saveBackground_fold by simp

lemma loadBackground_fold:
  "fold loadBackground_body [0..<n] (57, s) =
   (if n = 0 then 57 else cell (n - 1) + 1,
    s\<lparr>crt := (\<lambda>p. if 57 \<le> p mod 80 \<and> overlay_index p < n
                    then ucast ((scast (backgroundBackup s (overlay_index p)) :: cint) OR
                                currentColor s)
                    else crt s p)\<rparr>)"
proof (induction n)
  case 0
  show ?case by simp
next
  case (Suc n)
  have "fold loadBackground_body [0..<Suc n] (57, s) =
        loadBackground_body n (fold loadBackground_body [0..<n] (57, s))"
    by simp
  also have "\<dots> = loadBackground_body n (if n = 0 then 57 else cell (n - 1) + 1,
    s\<lparr>crt := (\<lambda>p. if 57 \<le> p mod 80 \<and> overlay_index p < n
                    then ucast ((scast (backgroundBackup s (overlay_index p)) :: cint) OR
                                currentColor s)
                    else crt s p)\<rparr>)"
    by (simp only: Suc)
  also have "\<dots> = (cell n + 1,
    s\<lparr>crt := (\<lambda>p. if 57 \<le> p mod 80 \<and> overlay_index p < n
                    then ucast ((scast (backgroundBackup s (overlay_index p)) :: cint) OR
                                currentColor s)
                    else crt s p)
            (cell n := ucast ((scast (backgroundBackup s n) :: cint) OR currentColor s))\<rparr>)"
    by (simp add: loadBackground_body_def Let_def row_start_cell del: One_nat_def)
  also have "\<dots> = (cell n + 1,
    s\<lparr>crt := (\<lambda>p. if 57 \<le> p mod 80 \<and> overlay_index p < Suc n
                    then ucast ((scast (backgroundBackup s (overlay_index p)) :: cint) OR
                                currentColor s)
                    else crt s p)\<rparr>)"
    by (auto simp add: fun_eq_iff eq_cell_iff less_Suc_eq intro!: crt_update_cong)
  finally show ?case by simp
qed

lemma loadBackground_eq:
  "loadBackground s =
     s\<lparr>crt := (\<lambda>p. if in_overlay p
                    then ucast ((scast (backgroundBackup s (overlay_index p)) :: cint) OR
                                currentColor s)
                    else crt s p)\<rparr>"
  unfolding loadBackground_def loadBackground_fold
  by (auto simp add: in_overlay_def overlay_index_less fun_eq_iff intro!: crt_update_cong)

lemma showMenu_fold:
  "fold showMenu_body [0..<n] (57, s) =
   (if n = 0 then 57 else cell (n - 1) + 1,
    s\<lparr>crt := (\<lambda>p. if 57 \<le> p mod 80 \<and> overlay_index p < n
                    then ucast (((scast (menustr ! overlay_index p) :: cint) AND 0xff) OR 0x0f00)
                    else crt s p)\<rparr>)"
proof (induction n)
  case 0
  show ?case by simp
next
  case (Suc n)
  have "fold showMenu_body [0..<Suc n] (57, s) =
        showMenu_body n (fold showMenu_body [0..<n] (57, s))"
    by simp
  also have "\<dots> = showMenu_body n (if n = 0 then 57 else cell (n - 1) + 1,
    s\<lparr>crt := (\<lambda>p. if 57 \<le> p mod 80 \<and> overlay_index p < n
                    then ucast (((scast (menustr ! overlay_index p) :: cint) AND 0xff) OR 0x0f00)
                    else crt s p)\<rparr>)"
    by (simp only: Suc)
  also have "\<dots> = (cell n + 1,
    s\<lparr>crt := (\<lambda>p. if 57 \<le> p mod 80 \<and> overlay_index p < n
                    then ucast (((scast (menustr ! overlay_index p) :: cint) AND 0xff) OR 0x0f00)
                    else crt s p)
            (cell n := ucast (((scast (menustr ! n) :: cint) AND 0xff) OR 0x0f00))\<rparr>)"
    by (simp add: showMenu_body_def Let_def row_start_cell del: One_nat_def)
  also have "\<dots> = (cell n + 1,
    s\<lparr>crt := (\<lambda>p. if 57 \<le> p mod 80 \<and> overlay_index p < Suc n
                    then ucast (((scast (menustr ! overlay_index p) :: cint) AND 0xff) OR 0x0f00)
                    else crt s p)\<rparr>)"
    by (auto simp add: fun_eq_iff eq_cell_iff less_Suc_eq intro!: crt_update_cong)
  finally show ?case by simp
qed

lemma showMenu_eq:
  "showMenu s =
     s\<lparr>crt := (\<lambda>p. if in_overlay p
                    then ucast (((scast (menustr ! overlay_index p) :: cint) AND 0xff) OR 0x0f00)
                    else crt s p)\<rparr>"
  unfolding showMenu_def showMenu_fold
  by (auto simp add: in_overlay_def overlay_index_less fun_eq_iff intro!: crt_update_cong)

section \<open>Bytes of a screen cell\<close>

lemma ff_mask: "(0xff :: cint) = mask 8"
  by (simp add: mask_eq_decr_exp)

lemma char_byte_painted: "char_byte (painted col x) = char_byte x OR ucast col"
  unfolding char_byte_def painted_def ff_mask
  by (rule bit_word_eqI) (auto simp add: bit_simps)

lemma attr_byte_painted: "attr_byte (painted col x) = color_attr col"
  unfolding attr_byte_def painted_def color_attr_def ff_mask
  by (rule bit_word_eqI) (auto simp add: bit_simps)

lemma attr_byte_ucast: "attr_byte (ucast (col :: cint)) = color_attr col"
  unfolding attr_byte_def color_attr_def
  by (rule bit_word_eqI) (auto simp add: bit_simps)

lemma char_byte_restored:
  "char_byte (ucast ((scast (b::cchar) :: cint) OR col)) = b OR ucast col"
  unfolding char_byte_def
  by (rule bit_word_eqI) (auto simp add: bit_simps)

lemma attr_byte_restored:
  "attr_byte (ucast ((scast (b::cchar) :: cint) OR col)) =
     (if bit b 7 then 0xFF else color_attr col)"
proof -
  have ff: "(0xFF :: cchar) = - 1"
    by simp
  show ?thesis
    unfolding attr_byte_def color_attr_def ff
    by (rule bit_word_eqI) (auto simp add: bit_simps)
qed

section \<open>The cursor and the scroll\<close>

lemma div80_ge24: "(24 \<le> (p::int) div 80) \<longleftrightarrow> 1920 \<le> p"
proof
  assume a: "24 \<le> p div 80"
  show "1920 \<le> p"
  proof (rule ccontr)
    assume "\<not> 1920 \<le> p"
    then have "p div 80 \<le> 1919 div 80"
      by (intro zdiv_mono1) simp_all
    with a show False by simp
  qed
next
  assume "1920 \<le> p"
  then have "1920 div 80 \<le> p div 80"
    by (intro zdiv_mono1) simp_all
  then show "24 \<le> p div 80" by simp
qed

lemma div80_less24: "((p::int) div 80 < 24) \<longleftrightarrow> p < 1920"
  using div80_ge24[of p] by linarith

lemma advance_newline_bound:
  assumes "0 \<le> (p::int)" "p < 1920"
  shows "0 \<le> p + (80 - p mod 80) \<and> p + (80 - p mod 80) \<le> 1920"
proof -
  have "p div 80 \<le> 1919 div 80"
    using assms by (intro zdiv_mono1) simp_all
  then have "p div 80 \<le> 23"
    by simp
  moreover have "p + (80 - p mod 80) = 80 * (p div 80) + 80"
    by (simp add: minus_mod_eq_mult_div [symmetric])
  moreover have "0 \<le> p div 80"
    using assms by (simp add: pos_imp_zdiv_nonneg_iff)
  ultimately show ?thesis
    by simp
qed

lemma cga_advance_frame:
  "cga_advance s c = (pos, s1) \<Longrightarrow> s1 = s\<lparr>crt := crt s1\<rparr>"
  by (auto simp add: cga_advance_def Let_def split: if_splits)

lemma cga_advance_bound:
  assumes "uint (cursor s) < 1920"
  shows "0 \<le> fst (cga_advance s c) \<and> fst (cga_advance s c) \<le> 1920"
  using assms advance_newline_bound[of "uint (cursor s)"]
  by (auto simp add: cga_advance_def Let_def)

lemma cga_scroll_eq:
  "1920 \<le> pos \<Longrightarrow> cga_scroll pos s =
     (pos - 80,
      s\<lparr>crt := (\<lambda>i. if 1840 \<le> i \<and> i < 1920
                     then (if nat (pos - 80) \<le> i
                           then (if currentColor s \<noteq> 0x0700 then ucast (currentColor s) else 0)
                           else (if currentColor s \<noteq> 0x0700
                                 then painted (currentColor s) (crt s i) else crt s i))
                     else if i < 1840 then crt s (i + 80) else crt s i)\<rparr>)"
  by (auto simp add: cga_scroll_def Let_def repaintLastRow_eq scroll_memmove_def
      scroll_memset_def painted_def fun_eq_iff intro!: crt_update_cong)

lemma cgaputc_eq:
  "cgaputc s c =
     (let (pos, s1) = cga_advance s c in
      if pos < 0 \<or> pos > 2000 then Inl Panic
      else if 1920 \<le> pos
      then Inr ((snd (cga_scroll pos s1))
                  \<lparr>cursor := word_of_int (pos - 80),
                   crt := (crt (snd (cga_scroll pos s1)))
                            (nat (pos - 80) := ucast (0x20 OR currentColor s))\<rparr>)
      else Inr (s1\<lparr>cursor := word_of_int pos,
                   crt := (crt s1)(nat pos := ucast (0x20 OR currentColor s))\<rparr>))"
proof -
  obtain pos s1 where adv: "cga_advance s c = (pos, s1)"
    by (cases "cga_advance s c")
  have col: "currentColor s1 = currentColor s"
    using arg_cong[OF cga_advance_frame[OF adv], of currentColor] by simp
  show ?thesis
  proof (cases "1920 \<le> pos")
    case True
    then show ?thesis
      by (simp add: cgaputc_def adv div80_ge24 cga_scroll_eq col)
  next
    case False
    then show ?thesis
      by (simp add: cgaputc_def adv div80_ge24 col)
  qed
qed

lemma cgaputc_frame:
  assumes "cgaputc s c = Inr s'"
  shows "s' = s\<lparr>crt := crt s', cursor := cursor s'\<rparr>"
proof -
  obtain pos s1 where adv: "cga_advance s c = (pos, s1)"
    by (cases "cga_advance s c")
  have s1: "s1 = s\<lparr>crt := crt s1\<rparr>"
    by (rule cga_advance_frame[OF adv])
  show ?thesis
  proof (cases "1920 \<le> pos")
    case True
    with assms have "s' = s1\<lparr>crt := crt s', cursor := cursor s'\<rparr>"
      by (auto simp add: cgaputc_eq adv cga_scroll_eq split: if_splits)
    then show ?thesis
      by (subst (asm) s1) simp
  next
    case False
    with assms have "s' = s1\<lparr>crt := crt s', cursor := cursor s'\<rparr>"
      by (auto simp add: cgaputc_eq adv split: if_splits)
    then show ?thesis
      by (subst (asm) s1) simp
  qed
qed

lemma cgaputc_below:
  assumes "uint (cursor s) < 1920"
  shows "\<exists>s'. cgaputc s c = Inr s' \<and> uint (cursor s') < 1920"
proof -
  obtain pos s1 where adv: "cga_advance s c = (pos, s1)"
    by (cases "cga_advance s c")
  have pos: "0 \<le> pos \<and> pos \<le> 1920"
    using cga_advance_bound[OF assms, of c] adv by simp
  show ?thesis
  proof (cases "1920 \<le> pos")
    case True
    with pos have "pos = 1920" by simp
    then show ?thesis
      by (simp add: cgaputc_eq adv)
  next
    case False
    with pos have "uint (word_of_int pos :: 16 word) = pos"
      by (simp add: uint_word_of_int)
    with False pos show ?thesis
      by (simp add: cgaputc_eq adv)
  qed
qed






lemma cga_advance_keeps_before:
  assumes "cga_advance s c = (pos, s1)" and "int i + 1 < pos"
  shows "crt s1 i = crt s i"
  using assms by (auto simp add: cga_advance_def Let_def split: if_splits)

section \<open>Claims about the screen\<close>




text \<open>
  C8, as the code has it. When the position a put computes is on row 24 or beyond
  (\<open>24 \<le> pos div 80\<close>, and no panic), the put scrolls: cells 80..1919 (rows 1 to 23, 23
  rows) move up to cells 0..1839 (rows 0 to 22); the cursor goes back by 80; row 23 is
  cleared from the new cursor to its end, each cleared cell being 0, or, when
  \<^verbatim>\<open>currentColor\<close> is not \<^verbatim>\<open>0x0700\<close>, the character 0 in the attribute of
  \<^verbatim>\<open>currentColor\<close>; the cells of row 23 before the new cursor (there are some only when
  the put started on row 24) keep what row 23 held, not what row 24 held, repainted in
  \<^verbatim>\<open>currentColor\<close> when that is not \<^verbatim>\<open>0x0700\<close>; the cell under the new cursor then gets
  a blank in \<^verbatim>\<open>currentColor\<close>; row 24 (cells 1920..1999) and everything after it is
  neither moved nor cleared. A put that starts below row 24 computes at most position
  1920, so it clears the whole of row 23.
\<close>

theorem cgaputc_scroll:
  assumes "cga_advance s c = (pos, s1)" and "24 \<le> pos div 80" and "pos \<le> 2000"
  shows "\<exists>s'. cgaputc s c = Inr s' \<and>
           uint (cursor s') = pos - 80 \<and>
           (\<forall>i<1840. crt s' i = crt s1 (i + 80)) \<and>
           (\<forall>i. 1840 \<le> i \<and> i < nat (pos - 80) \<longrightarrow>
                crt s' i = (if currentColor s \<noteq> 0x0700
                            then painted (currentColor s) (crt s i) else crt s i)) \<and>
           (\<forall>i. nat (pos - 80) < i \<and> i < 1920 \<longrightarrow>
                crt s' i = (if currentColor s \<noteq> 0x0700 then ucast (currentColor s) else 0) \<and>
                attr_byte (crt s' i) =
                  (if currentColor s \<noteq> 0x0700 then color_attr (currentColor s) else 0)) \<and>
           crt s' (nat (pos - 80)) = ucast (0x20 OR currentColor s) \<and>
           (\<forall>i\<ge>1920. i \<noteq> nat (pos - 80) \<longrightarrow> crt s' i = crt s1 i) \<and>
           (uint (cursor s) div 80 < 24 \<longrightarrow> pos = 1920)"
proof -
  have pos: "1920 \<le> pos"
    using assms(2) by (simp add: div80_ge24)
  have col: "currentColor s1 = currentColor s"
    using arg_cong[OF cga_advance_frame[OF assms(1)], of currentColor] by simp
  have "(pos - 80) mod 2 ^ 16 = pos - 80"
    using pos assms(3) by (intro mod_pos_pos_trivial) simp_all
  then have cur: "uint (word_of_int (pos - 80) :: 16 word) = pos - 80"
    by (simp only: uint_word_of_int len_bit0 len_num1 mult_numeral_1_right numeral_times_numeral
        mult_1_right) simp
  have start: "uint (cursor s) div 80 < 24 \<longrightarrow> pos = 1920"
    using cga_advance_bound[of s c] pos assms(1) by (simp add: div80_less24)
  have zero: "attr_byte 0 = 0"
    by (simp add: attr_byte_def)
  have kept: "crt s1 i = crt s i" if "i < nat (pos - 80)" for i
    using that by (intro cga_advance_keeps_before[OF assms(1)]) simp
  show ?thesis
    using pos assms(3) cur start
    by (auto simp add: cgaputc_eq assms(1) cga_scroll_eq col attr_byte_ucast zero kept)
qed

theorem cgaputc_scroll_witness:
  "(cga_advance row24_marked 0x78 =
      (1920, row24_marked\<lparr>crt := (crt row24_marked)(1919 := 0x0778)\<rparr>) \<and>
    (24::int) \<le> 1920 div 80 \<and> (1920::int) \<le> 2000 \<and>
    (\<exists>s'. cgaputc row24_marked 0x78 = Inr s' \<and> uint (cursor s') = 1840 \<and>
          crt s' 1839 = 0x0778 \<and> crt s' 1841 = 0 \<and> crt s' 1840 = 0x0720 \<and>
          crt s' 1921 = 0x0741)) \<and>
   (cga_advance row24_entry 0x78 =
      (1951, row24_entry\<lparr>crt := (crt row24_entry)(1950 := 0x0778)\<rparr>) \<and>
    (24::int) \<le> 1951 div 80 \<and> (1951::int) \<le> 2000 \<and>
    crt row24_entry 1845 = 0x0742 \<and> crt row24_entry 1925 = 0x0741 \<and>
    (\<exists>s'. cgaputc row24_entry 0x78 = Inr s' \<and> uint (cursor s') = 1871 \<and>
          crt s' 0 = 0x0720 \<and> crt s' 1765 = 0x0742 \<and> crt s' 1845 = 0x0742 \<and>
          crt s' 1871 = 0x0720 \<and> crt s' 1872 = 0 \<and> crt s' 1919 = 0 \<and>
          crt s' 1925 = 0x0741 \<and> crt s' 1950 = 0x0778))"
proof -
  have below: "cga_advance row24_marked 0x78 =
       (1920, row24_marked\<lparr>crt := (crt row24_marked)(1919 := 0x0778)\<rparr>) \<and>
     (24::int) \<le> 1920 div 80 \<and> (1920::int) \<le> 2000 \<and>
     (\<exists>s'. cgaputc row24_marked 0x78 = Inr s' \<and> uint (cursor s') = 1840 \<and>
           crt s' 1839 = 0x0778 \<and> crt s' 1841 = 0 \<and> crt s' 1840 = 0x0720 \<and>
           crt s' 1921 = 0x0741)"
  proof -
    have adv: "cga_advance row24_marked 0x78 =
       (1920, row24_marked\<lparr>crt := (crt row24_marked)(1919 := 0x0778)\<rparr>)"
      by (simp add: cga_advance_def row24_marked_def blank_console_def BACKSPACE_def)
    have col: "currentColor row24_marked = 0x0700"
      by (simp add: row24_marked_def blank_console_def)
    have old: "crt row24_marked 1921 = 0x0741"
      by (simp add: row24_marked_def blank_console_def)
    from cgaputc_scroll[OF adv] obtain s' where
      "cgaputc row24_marked 0x78 = Inr s'" "uint (cursor s') = 1920 - 80"
      "\<forall>i<1840. crt s' i = crt (row24_marked\<lparr>crt := (crt row24_marked)(1919 := 0x0778)\<rparr>) (i + 80)"
      "\<forall>i. nat (1920 - 80) < i \<and> i < 1920 \<longrightarrow>
          crt s' i = (if currentColor row24_marked \<noteq> 0x0700
                      then ucast (currentColor row24_marked) else 0) \<and>
          attr_byte (crt s' i) =
            (if currentColor row24_marked \<noteq> 0x0700
             then color_attr (currentColor row24_marked) else 0)"
      "crt s' (nat (1920 - 80)) = ucast (0x20 OR currentColor row24_marked)"
      "\<forall>i\<ge>1920. i \<noteq> nat (1920 - 80) \<longrightarrow>
          crt s' i = crt (row24_marked\<lparr>crt := (crt row24_marked)(1919 := 0x0778)\<rparr>) i"
      by auto
    then have "cgaputc row24_marked 0x78 = Inr s' \<and> uint (cursor s') = 1840 \<and>
           crt s' 1839 = 0x0778 \<and> crt s' 1841 = 0 \<and> crt s' 1840 = 0x0720 \<and>
           crt s' 1921 = 0x0741"
      using col old by simp
    then show ?thesis
      using adv by auto
  qed
  have on_row24: "cga_advance row24_entry 0x78 =
       (1951, row24_entry\<lparr>crt := (crt row24_entry)(1950 := 0x0778)\<rparr>) \<and>
     (24::int) \<le> 1951 div 80 \<and> (1951::int) \<le> 2000 \<and>
     crt row24_entry 1845 = 0x0742 \<and> crt row24_entry 1925 = 0x0741 \<and>
     (\<exists>s'. cgaputc row24_entry 0x78 = Inr s' \<and> uint (cursor s') = 1871 \<and>
           crt s' 0 = 0x0720 \<and> crt s' 1765 = 0x0742 \<and> crt s' 1845 = 0x0742 \<and>
           crt s' 1871 = 0x0720 \<and> crt s' 1872 = 0 \<and> crt s' 1919 = 0 \<and>
           crt s' 1925 = 0x0741 \<and> crt s' 1950 = 0x0778)"
  proof -
    have adv: "cga_advance row24_entry 0x78 =
       (1951, row24_entry\<lparr>crt := (crt row24_entry)(1950 := 0x0778)\<rparr>)"
      by (simp add: cga_advance_def row24_entry_def blank_console_def BACKSPACE_def)
    have col: "currentColor row24_entry = 0x0700"
      by (simp add: row24_entry_def blank_console_def)
    have old: "crt row24_entry = (\<lambda>_. 0x0720)(1845 := 0x0742, 1925 := 0x0741)"
      by (simp add: row24_entry_def blank_console_def)
    have rows: "(24::int) \<le> 1951 div 80" "(1951::int) \<le> 2000"
      by simp_all
    from cgaputc_scroll[OF adv rows] obtain s' where s':
      "cgaputc row24_entry 0x78 = Inr s'" "uint (cursor s') = 1951 - 80"
      "\<forall>i<1840. crt s' i = crt (row24_entry\<lparr>crt := (crt row24_entry)(1950 := 0x0778)\<rparr>) (i + 80)"
      "\<forall>i. 1840 \<le> i \<and> i < nat (1951 - 80) \<longrightarrow>
          crt s' i = (if currentColor row24_entry \<noteq> 0x0700
                      then painted (currentColor row24_entry) (crt row24_entry i)
                      else crt row24_entry i)"
      "\<forall>i. nat (1951 - 80) < i \<and> i < 1920 \<longrightarrow>
          crt s' i = (if currentColor row24_entry \<noteq> 0x0700
                      then ucast (currentColor row24_entry) else 0) \<and>
          attr_byte (crt s' i) =
            (if currentColor row24_entry \<noteq> 0x0700
             then color_attr (currentColor row24_entry) else 0)"
      "crt s' (nat (1951 - 80)) = ucast (0x20 OR currentColor row24_entry)"
      "\<forall>i\<ge>1920. i \<noteq> nat (1951 - 80) \<longrightarrow>
          crt s' i = crt (row24_entry\<lparr>crt := (crt row24_entry)(1950 := 0x0778)\<rparr>) i"
      by auto
    have "crt s' 0 = 0x0720" "crt s' 1765 = 0x0742"
      using s'(3) by (simp_all add: old)
    moreover have "crt s' 1845 = 0x0742"
      using s'(4) by (simp add: old col)
    moreover have "crt s' 1872 = 0" "crt s' 1919 = 0"
      using s'(5) by (simp_all add: col)
    moreover have "crt s' 1871 = 0x0720"
      using s'(6) by (simp add: col)
    moreover have "crt s' 1925 = 0x0741" "crt s' 1950 = 0x0778"
      using s'(7) by (simp_all add: old)
    ultimately have "cgaputc row24_entry 0x78 = Inr s' \<and> uint (cursor s') = 1871 \<and>
           crt s' 0 = 0x0720 \<and> crt s' 1765 = 0x0742 \<and> crt s' 1845 = 0x0742 \<and>
           crt s' 1871 = 0x0720 \<and> crt s' 1872 = 0 \<and> crt s' 1919 = 0 \<and>
           crt s' 1925 = 0x0741 \<and> crt s' 1950 = 0x0778"
      using s'(1,2) by simp
    then show ?thesis
      using adv by (auto simp add: old)
  qed
  show ?thesis
    using below on_row24 by (rule conjI)
qed

text \<open>
  C8, as stated, fails: row 24 is not copied to row 23 and is not cleared. With a mark
  in cell 1921 (row 24) and the cursor in the last column of row 23, the \<^verbatim>\<open>memmove\<close>
  leaves cell 1841 (row 23) with its own old content, and after the whole put the mark is
  still in row 24 while row 23 is cleared.
\<close>

theorem cgaputc_scroll_row24_counterexample:
  "crt row24_marked 1921 = 0x0741 \<and>
   scroll_memmove (crt row24_marked) 1841 = crt row24_marked 1841 \<and>
   scroll_memmove (crt row24_marked) 1841 \<noteq> crt row24_marked 1921 \<and>
   \<not> isl (cgaputc row24_marked 0x78) \<and>
   crt (projr (cgaputc row24_marked 0x78)) 1921 = 0x0741 \<and>
   crt (projr (cgaputc row24_marked 0x78)) 1841 = 0"
proof -
  have adv: "cga_advance row24_marked 0x78 =
     (1920, row24_marked\<lparr>crt := (crt row24_marked)(1919 := 0x0778)\<rparr>)"
    by (simp add: cga_advance_def row24_marked_def blank_console_def BACKSPACE_def)
  have col: "currentColor row24_marked = 0x0700"
    by (simp add: row24_marked_def blank_console_def)
  have old: "crt row24_marked 1921 = 0x0741" "crt row24_marked 1841 = 0x0720"
    by (simp_all add: row24_marked_def blank_console_def)
  have put: "cgaputc row24_marked 0x78 =
     Inr ((snd (cga_scroll 1920 (row24_marked\<lparr>crt := (crt row24_marked)(1919 := 0x0778)\<rparr>)))
            \<lparr>cursor := word_of_int (1920 - 80),
             crt := (crt (snd (cga_scroll 1920
                      (row24_marked\<lparr>crt := (crt row24_marked)(1919 := 0x0778)\<rparr>))))
                      (nat (1920 - 80) := ucast (0x20 OR currentColor row24_marked))\<rparr>)"
    by (simp add: cgaputc_eq adv)
  show ?thesis
    unfolding put using old col
    by (simp add: scroll_memmove_def cga_scroll_eq)
qed

section \<open>Claims about the colour\<close>

lemma ucast_low_byte: "(ucast ((x::cint) AND 0xff) :: cchar) = ucast x"
  unfolding ff_mask
  by (rule bit_word_eqI) (auto simp add: bit_simps)

lemma ucast_low_zero: "(col::cint) AND 0xff = 0 \<Longrightarrow> (ucast col :: cchar) = 0"
  using ucast_low_byte[of col] by simp

lemma nat_cases16:
  "(n::nat) < 16 \<Longrightarrow> n \<in> {0, 1, 2, 3, 4, 5, 6, 7, 8, 9, 10, 11, 12, 13, 14, 15}"
  by (auto simp add: numeral_eq_Suc less_Suc_eq)

lemma selection_cases:
  assumes "0 \<le> (x::int)" and "x < 16"
  shows "x \<in> {0, 1, 2, 3, 4, 5, 6, 7, 8, 9, 10, 11, 12, 13, 14, 15}"
proof -
  have "nat x < 16"
    using assms by simp
  from nat_cases16[OF this]
  have "int (nat x) \<in> int ` {0, 1, 2, 3, 4, 5, 6, 7, 8, 9, 10, 11, 12, 13, 14, 15}"
    by (rule imageI)
  then show ?thesis
    using assms by simp
qed

lemma smod_nonneg: "0 \<le> (x::int) \<Longrightarrow> 0 < y \<Longrightarrow> x smod y = x mod y"
  by (cases "x = 0") (simp_all add: smod_int_alt_def)

lemma sdiv_nonneg: "0 \<le> (x::int) \<Longrightarrow> 0 < y \<Longrightarrow> x sdiv y = x div y"
  by (cases "x = 0") (simp_all add: signed_divide_int_def)

lemma getColor_frame:
  "getColor s = s\<lparr>currentColor := currentColor (getColor s)\<rparr> \<and>
   getBrightColor s = s\<lparr>currentColor := currentColor (getBrightColor s)\<rparr>"
  by (simp add: getColor_def getBrightColor_def)

lemma getColor_low_byte:
  assumes "0 \<le> currentSelection s" and "currentSelection s < 16"
  shows "currentColor (getColor s) AND 0xff = currentColor s AND 0xff \<and>
         currentColor (getBrightColor s) AND 0xff = currentColor s AND 0xff"
  using selection_cases[OF assms]
  apply (simp add: getColor_def getBrightColor_def smod_nonneg[OF assms(1)])
  apply (elim disjE)
  apply (simp_all add: clrs_def bit.conj_disj_distrib2 and.assoc)
  done

lemma getColor_odd:
  assumes "0 \<le> currentSelection s" and "currentSelection s < 16"
    and "currentSelection s mod 2 = 1"
  shows "bg_nibble (currentColor (getColor s)) = bg_nibble (clrs ! nat (currentSelection s)) \<and>
         fg_nibble (currentColor (getColor s)) = fg_nibble (currentColor s) \<and>
         bg_nibble (currentColor (getBrightColor s)) =
           bg_nibble (clrs ! nat (currentSelection s)) + 8 \<and>
         fg_nibble (currentColor (getBrightColor s)) = fg_nibble (currentColor s)"
  using selection_cases[OF assms(1,2)] assms(3)
  apply (simp add: getColor_def getBrightColor_def smod_nonneg[OF assms(1)])
  apply (elim disjE)
  apply (simp_all add: clrs_def bg_nibble_def fg_nibble_def drop_bit_or drop_bit_and
      bit.conj_disj_distrib2 and.assoc)
  done

lemma getColor_even:
  assumes "0 \<le> currentSelection s" and "currentSelection s < 16"
    and "currentSelection s mod 2 = 0"
  shows "fg_nibble (currentColor (getColor s)) = fg_nibble (clrs ! nat (currentSelection s)) \<and>
         bg_nibble (currentColor (getColor s)) = bg_nibble (currentColor s) \<and>
         fg_nibble (currentColor (getBrightColor s)) =
           fg_nibble (clrs ! nat (currentSelection s)) + 8 \<and>
         bg_nibble (currentColor (getBrightColor s)) = bg_nibble (currentColor s)"
  using selection_cases[OF assms(1,2)] assms(3)
  apply (simp add: getColor_def getBrightColor_def smod_nonneg[OF assms(1)])
  apply (elim disjE)
  apply (simp_all add: clrs_def bg_nibble_def fg_nibble_def drop_bit_or drop_bit_and
      bit.conj_disj_distrib2 and.assoc)
  done

text \<open>
  C7. For every \<^verbatim>\<open>currentColor\<close> and every selection in 0..15: with an odd selection
  \<^verbatim>\<open>getColor\<close> sets the background nibble to that of \<^verbatim>\<open>clrs[selection]\<close>, and
  \<^verbatim>\<open>getBrightColor\<close> to that nibble plus 8 (the brightness bit), and both leave the
  foreground nibble as it was; with an even selection the same holds with foreground and
  background exchanged. Neither changes the low byte of \<^verbatim>\<open>currentColor\<close> or any other
  global. With selection 0, \<^verbatim>\<open>getColor\<close> makes the foreground nibble that of
  \<^verbatim>\<open>clrs[0]\<close>, which is 0 and so has the brightness bit clear, and keeps the background
  nibble.
\<close>

theorem commit_color_nibbles:
  assumes "0 \<le> currentSelection s" and "currentSelection s < 16"
  shows
    "(currentSelection s mod 2 = 1 \<longrightarrow>
        bg_nibble (currentColor (getColor s)) = bg_nibble (clrs ! nat (currentSelection s)) \<and>
        fg_nibble (currentColor (getColor s)) = fg_nibble (currentColor s) \<and>
        bg_nibble (currentColor (getBrightColor s)) =
          bg_nibble (clrs ! nat (currentSelection s)) + 8 \<and>
        fg_nibble (currentColor (getBrightColor s)) = fg_nibble (currentColor s)) \<and>
     (currentSelection s mod 2 = 0 \<longrightarrow>
        fg_nibble (currentColor (getColor s)) = fg_nibble (clrs ! nat (currentSelection s)) \<and>
        bg_nibble (currentColor (getColor s)) = bg_nibble (currentColor s) \<and>
        fg_nibble (currentColor (getBrightColor s)) =
          fg_nibble (clrs ! nat (currentSelection s)) + 8 \<and>
        bg_nibble (currentColor (getBrightColor s)) = bg_nibble (currentColor s)) \<and>
     currentColor (getColor s) AND 0xff = currentColor s AND 0xff \<and>
     currentColor (getBrightColor s) AND 0xff = currentColor s AND 0xff \<and>
     getColor s = s\<lparr>currentColor := currentColor (getColor s)\<rparr> \<and>
     getBrightColor s = s\<lparr>currentColor := currentColor (getBrightColor s)\<rparr> \<and>
     (currentSelection s = 0 \<longrightarrow>
        fg_nibble (currentColor (getColor s)) = fg_nibble (clrs ! 0) \<and>
        fg_nibble (clrs ! 0) = 0 \<and> \<not> bit (fg_nibble (currentColor (getColor s))) 3 \<and>
        bg_nibble (currentColor (getColor s)) = bg_nibble (currentColor s))"
proof -
  have zero: "currentSelection s = 0 \<longrightarrow>
        fg_nibble (currentColor (getColor s)) = fg_nibble (clrs ! 0) \<and>
        fg_nibble (clrs ! 0) = 0 \<and> \<not> bit (fg_nibble (currentColor (getColor s))) 3 \<and>
        bg_nibble (currentColor (getColor s)) = bg_nibble (currentColor s)"
  proof
    assume z: "currentSelection s = 0"
    have "fg_nibble (clrs ! 0) = 0"
      by (simp add: clrs_def fg_nibble_def)
    then show "fg_nibble (currentColor (getColor s)) = fg_nibble (clrs ! 0) \<and>
        fg_nibble (clrs ! 0) = 0 \<and> \<not> bit (fg_nibble (currentColor (getColor s))) 3 \<and>
        bg_nibble (currentColor (getColor s)) = bg_nibble (currentColor s)"
      using getColor_even[of s] z by simp
  qed
  show ?thesis
    using getColor_odd[OF assms] getColor_even[OF assms] getColor_low_byte[OF assms]
      getColor_frame[of s] zero
    by blast
qed

theorem commit_color_nibbles_witness:
  "(0::int) \<le> currentSelection green_bg_selected \<and> currentSelection green_bg_selected < 16 \<and>
   currentSelection green_bg_selected mod 2 = 1 \<and>
   bg_nibble (currentColor (getColor green_bg_selected)) = 2 \<and>
   fg_nibble (currentColor (getColor green_bg_selected)) = 7 \<and>
   bg_nibble (currentColor (getBrightColor green_bg_selected)) = 10 \<and>
   currentSelection blank_console mod 2 = 0 \<and> currentSelection blank_console = 0 \<and>
   fg_nibble (currentColor (getColor blank_console)) = 0 \<and>
   bg_nibble (currentColor (getColor blank_console)) = 0 \<and>
   fg_nibble (currentColor (getBrightColor blank_console)) = 8"
proof -
  have sel: "currentSelection green_bg_selected = 5" "currentSelection blank_console = 0"
    and col: "currentColor green_bg_selected = 0x0700" "currentColor blank_console = 0x0700"
    by (simp_all add: green_bg_selected_def blank_console_def)
  have pal: "bg_nibble (clrs ! 5) = 2" "fg_nibble (clrs ! 0) = 0"
    "fg_nibble 0x0700 = 7" "bg_nibble 0x0700 = 0"
    by (simp_all add: clrs_def bg_nibble_def fg_nibble_def)
  show ?thesis
    using commit_color_nibbles[of green_bg_selected] commit_color_nibbles[of blank_console]
    by (simp add: sel col pal)
qed

section \<open>Saving and restoring the overlay region\<close>

lemma restore_cell:
  assumes "in_overlay p"
  shows "crt (loadBackground (saveBackground s)) p =
           ucast ((scast (char_byte (crt s p)) :: cint) OR currentColor s)"
proof -
  have p: "57 \<le> p mod 80" "overlay_index p < 230"
    using assms overlay_index_less[of p] by (simp_all add: in_overlay_def)
  then show ?thesis
    using assms
    by (simp add: loadBackground_eq saveBackground_eq cell_overlay_index char_byte_def)
qed

lemma restore_outside:
  "\<not> in_overlay p \<Longrightarrow> crt (loadBackground (saveBackground s)) p = crt s p"
  by (simp add: loadBackground_eq saveBackground_eq)

lemma restore_plain_cell:
  assumes "in_overlay p" and "\<not> bit (char_byte (crt s p)) 7" and "currentColor s AND 0xff = 0"
  shows "char_byte (crt (loadBackground (saveBackground s)) p) = char_byte (crt s p) \<and>
         attr_byte (crt (loadBackground (saveBackground s)) p) = color_attr (currentColor s)"
  using assms(2) ucast_low_zero[OF assms(3)]
  by (simp add: restore_cell[OF assms(1)] char_byte_restored attr_byte_restored)

text \<open>
  C6 on a cell whose character has the top bit set. Writing the byte \<^verbatim>\<open>0x80\<close> with the
  cursor on cell 57 puts \<^verbatim>\<open>0x0780\<close> there. \<^verbatim>\<open>saveBackground\<close> keeps the character in a
  \<^verbatim>\<open>char\<close>; \<^verbatim>\<open>loadBackground\<close> promotes it to \<^verbatim>\<open>int\<close> with its sign before the \<^verbatim>\<open>|\<close>, so
  the cell comes back as \<^verbatim>\<open>0xFF80\<close>: the character is restored, the attribute byte is
  \<^verbatim>\<open>0xFF\<close> and not the \<^verbatim>\<open>0x07\<close> of \<^verbatim>\<open>currentColor\<close>.
\<close>

theorem restore_high_char_attribute:
  "\<not> isl (consolewrite at_overlay [0x80]) \<and>
   crt (projr (consolewrite at_overlay [0x80])) 57 = 0x0780 \<and>
   in_overlay 57 \<and>
   crt high_char_screen 57 = 0x0780 \<and>
   currentColor (saveBackground high_char_screen) = 0x0700 \<and>
   color_attr (currentColor (saveBackground high_char_screen)) = 0x07 \<and>
   crt (loadBackground (saveBackground high_char_screen)) 57 = 0xFF80 \<and>
   char_byte (crt (loadBackground (saveBackground high_char_screen)) 57) = 0x80 \<and>
   attr_byte (crt (loadBackground (saveBackground high_char_screen)) 57) = 0xFF"
proof -
  have ov: "in_overlay 57"
    by (simp add: in_overlay_def)
  have st: "crt high_char_screen 57 = 0x0780" "currentColor high_char_screen = 0x0700"
    by (simp_all add: high_char_screen_def blank_console_def)
  have "(scast (0x80 :: cchar) :: cint) AND 0xff = 0x80"
    by simp
  then have wr: "\<not> isl (consolewrite at_overlay [0x80])"
    "crt (projr (consolewrite at_overlay [0x80])) 57 = 0x0780"
    by (simp_all add: consputc_def cgaputc_eq cga_advance_def at_overlay_def blank_console_def
        BACKSPACE_def)
  have cell: "crt (loadBackground (saveBackground high_char_screen)) 57 = 0xFF80"
    by (simp add: restore_cell[OF ov] st char_byte_def)
  have "char_byte 0xFF80 = 0x80" "attr_byte 0xFF80 = 0xFF" "color_attr 0x0700 = 0x07"
    by (simp_all add: char_byte_def attr_byte_def color_attr_def)
  then show ?thesis
    using ov st wr cell by (simp add: saveBackground_eq)
qed

section \<open>Echo and line editing\<close>

lemma consputc_frame:
  assumes "consputc s c = Inr s'"
  shows "s' = s\<lparr>uart := uart s @ (if c = BACKSPACE then [0x08, 0x20, 0x08] else [c]),
                crt := crt s', cursor := cursor s'\<rparr>"
proof -
  have run: "cgaputc (s\<lparr>uart := uart s @ (if c = BACKSPACE then [0x08, 0x20, 0x08] else [c])\<rparr>) c
               = Inr s'"
    using assms by (simp add: consputc_def split: if_splits)
  show ?thesis
    by (rule cgaputc_frame[OF run])
qed

lemma consputc_keeps:
  assumes "consputc s c = Inr s'"
  shows "currentColor s' = currentColor s \<and> panicked s' = panicked s \<and>
         input_buf s' = input_buf s \<and> input_r s' = input_r s \<and> input_w s' = input_w s \<and>
         input_e s' = input_e s \<and> backgroundBackup s' = backgroundBackup s \<and>
         flagC s' = flagC s \<and> flagO s' = flagO s \<and> menuStatus s' = menuStatus s \<and>
         currentSelection s' = currentSelection s \<and> doprocdump s' = doprocdump s \<and>
         uart s' = uart s @ (if c = BACKSPACE then [0x08, 0x20, 0x08] else [c])"
proof -
  note f = consputc_frame[OF assms]
  show ?thesis
    using arg_cong[OF f, of currentColor] arg_cong[OF f, of panicked]
      arg_cong[OF f, of input_buf] arg_cong[OF f, of input_r] arg_cong[OF f, of input_w]
      arg_cong[OF f, of input_e] arg_cong[OF f, of backgroundBackup]
      arg_cong[OF f, of flagC] arg_cong[OF f, of flagO] arg_cong[OF f, of menuStatus]
      arg_cong[OF f, of currentSelection] arg_cong[OF f, of doprocdump]
      arg_cong[OF f, of uart]
    by simp
qed

lemma consputc_returns:
  assumes "panicked s = 0" and "uint (cursor s) < 1920"
  shows "\<exists>s'. consputc s c = Inr s' \<and> uint (cursor s') < 1920"
  using assms cgaputc_below[of "s\<lparr>uart := uart s @
      (if c = BACKSPACE then [0x08, 0x20, 0x08] else [c])\<rparr>" c]
  by (simp add: consputc_def)

lemma killLine_keeps:
  "killLine s = Inr s' \<Longrightarrow>
     currentColor s' = currentColor s \<and> panicked s' = panicked s \<and>
     input_buf s' = input_buf s \<and> input_r s' = input_r s \<and> input_w s' = input_w s \<and>
     backgroundBackup s' = backgroundBackup s \<and>
     flagC s' = flagC s \<and> flagO s' = flagO s \<and> menuStatus s' = menuStatus s \<and>
     currentSelection s' = currentSelection s \<and> doprocdump s' = doprocdump s"
proof (induction s rule: killLine.induct)
  case (1 s)
  show ?case
  proof (cases "input_e s \<noteq> input_w s \<and>
                input_buf s (unat (input_e s - 1) mod INPUT_BUF) \<noteq> 0x0A")
    case True
    then obtain s1 where put: "consputc (s\<lparr>input_e := input_e s - 1\<rparr>) BACKSPACE = Inr s1"
      and rest: "killLine s1 = Inr s'"
      using "1.prems" by (subst (asm) killLine.simps) (auto split: sum.splits)
    from "1.IH"[OF True put rest] consputc_keeps[OF put]
    show ?thesis by simp
  next
    case False
    then have "s' = s"
      using "1.prems" by (subst (asm) killLine.simps) auto
    then show ?thesis by simp
  qed
qed

lemma killLine_returns:
  "panicked s = 0 \<Longrightarrow> uint (cursor s) < 1920 \<Longrightarrow>
     \<exists>s'. killLine s = Inr s' \<and> uint (cursor s') < 1920"
proof (induction s rule: killLine.induct)
  case (1 s)
  show ?case
  proof (cases "input_e s \<noteq> input_w s \<and>
                input_buf s (unat (input_e s - 1) mod INPUT_BUF) \<noteq> 0x0A")
    case True
    obtain s1 where put: "consputc (s\<lparr>input_e := input_e s - 1\<rparr>) BACKSPACE = Inr s1"
      and cur: "uint (cursor s1) < 1920"
      using consputc_returns[of "s\<lparr>input_e := input_e s - 1\<rparr>" BACKSPACE] "1.prems"
      by auto
    have "panicked s1 = 0"
      using consputc_keeps[OF put] "1.prems" by simp
    from "1.IH"[OF True put this cur] obtain s' where
      "killLine s1 = Inr s'" "uint (cursor s') < 1920"
      by auto
    then show ?thesis
      using True put by (subst killLine.simps) simp
  next
    case False
    then show ?thesis
      using "1.prems" by (subst killLine.simps) auto
  qed
qed

lemma buffer_inv_erase:
  assumes "buffer_inv s" and "input_e s \<noteq> input_w s"
  shows "buffer_inv (s\<lparr>input_e := input_e s - 1\<rparr>)"
proof -
  have ne: "input_e s - input_r s \<noteq> input_w s - input_r s"
    using assms(2) by simp
  then have lt: "unat (input_w s - input_r s) < unat (input_e s - input_r s)"
    using assms(1) by (auto simp add: buffer_inv_def order_less_le word_unat_eq_iff)
  then have nz: "input_e s - input_r s \<noteq> 0"
    by auto
  have eq: "input_e s - 1 - input_r s = (input_e s - input_r s) - 1"
    by simp
  have "unat (input_e s - 1 - input_r s) = unat (input_e s - input_r s) - 1"
    unfolding eq using nz by (rule unat_minus_one)
  then show ?thesis
    using assms(1) lt by (auto simp add: buffer_inv_def)
qed

lemma buffer_inv_cong:
  "input_r s' = input_r s \<Longrightarrow> input_w s' = input_w s \<Longrightarrow> input_e s' = input_e s \<Longrightarrow>
   buffer_inv s' = buffer_inv s"
  by (simp add: buffer_inv_def)

lemma killLine_buffer_inv:
  "killLine s = Inr s' \<Longrightarrow> buffer_inv s \<Longrightarrow> buffer_inv s'"
proof (induction s rule: killLine.induct)
  case (1 s)
  show ?case
  proof (cases "input_e s \<noteq> input_w s \<and>
                input_buf s (unat (input_e s - 1) mod INPUT_BUF) \<noteq> 0x0A")
    case True
    then obtain s1 where put: "consputc (s\<lparr>input_e := input_e s - 1\<rparr>) BACKSPACE = Inr s1"
      and rest: "killLine s1 = Inr s'"
      using "1.prems"(1) by (subst (asm) killLine.simps) (auto split: sum.splits)
    have "buffer_inv (s\<lparr>input_e := input_e s - 1\<rparr>)"
      using buffer_inv_erase[OF "1.prems"(2)] True by simp
    then have "buffer_inv s1"
      using consputc_keeps[OF put] buffer_inv_cong[of s1 "s\<lparr>input_e := input_e s - 1\<rparr>"]
      by simp
    from "1.IH"[OF True put rest this] show ?thesis .
  next
    case False
    then have "s' = s"
      using "1.prems"(1) by (subst (asm) killLine.simps) auto
    then show ?thesis
      using "1.prems"(2) by simp
  qed
qed

section \<open>The interrupt handler\<close>

lemma key_codes:
  "C CHR ''P'' = 16" "C CHR ''U'' = 21" "C CHR ''H'' = 8" "C CHR ''D'' = 4"
  "A CHR ''c'' = 199" "A CHR ''o'' = 211" "A CHR ''l'' = 208"
  by (simp_all add: C_def A_def)

lemma menu_keys:
  "(of_char CHR ''e'' :: cchar) = 0x65" "(of_char CHR ''r'' :: cchar) = 0x72"
  "(of_char CHR ''s'' :: cchar) = 0x73" "(of_char CHR ''w'' :: cchar) = 0x77"
  "(of_char CHR ''d'' :: cchar) = 0x64" "(of_char CHR ''a'' :: cchar) = 0x61"
  by simp_all

text \<open>The menu branch of the \<^verbatim>\<open>default\<close> case touches the screen, the colour and the
  selection only.\<close>

lemma menu_redraw_keeps:
  "cursor (menu_redraw s c) = cursor s \<and> uart (menu_redraw s c) = uart s \<and>
   panicked (menu_redraw s c) = panicked s \<and>
   input_buf (menu_redraw s c) = input_buf s \<and> input_r (menu_redraw s c) = input_r s \<and>
   input_w (menu_redraw s c) = input_w s \<and> input_e (menu_redraw s c) = input_e s \<and>
   backgroundBackup (menu_redraw s c) = backgroundBackup s \<and>
   flagC (menu_redraw s c) = flagC s \<and> flagO (menu_redraw s c) = flagO s \<and>
   menuStatus (menu_redraw s c) = menuStatus s \<and> doprocdump (menu_redraw s c) = doprocdump s"
  by (simp add: menu_redraw_def Let_def displaySelection_eq showMenu_eq handleInput_def
      repaint_eq getColor_def getBrightColor_def)

lemma buffer_inv_append:
  assumes "buffer_inv s" and "input_e s - input_r s < of_nat INPUT_BUF"
  shows "unat (input_e s + 1 - input_r s) = unat (input_e s - input_r s) + 1 \<and>
         unat (input_e s + 1 - input_r s) \<le> INPUT_BUF"
proof -
  have lt: "unat (input_e s - input_r s) < INPUT_BUF"
    using assms(2) by (simp add: word_less_nat_alt INPUT_BUF_def)
  have eq: "input_e s + 1 - input_r s = (input_e s - input_r s) + 1"
    by simp
  have "unat ((input_e s - input_r s) + 1) = unat (input_e s - input_r s) + 1"
    using lt by (simp add: unat_word_ariths INPUT_BUF_def)
  then show ?thesis
    unfolding eq using lt by simp
qed

lemma consoleintr_char_buffer_inv:
  assumes "buffer_inv s" and "consoleintr_char s c = Inr s'"
  shows "buffer_inv s'"
proof -
  consider (P) "c = C CHR ''P''" | (U) "c = C CHR ''U''" | (H) "c = C CHR ''H'' \<or> c = 0x7f"
    | (alt) "c = A CHR ''c'' \<or> c = A CHR ''o'' \<or> c = A CHR ''l''"
    | (closed) "default_case c" "menuStatus s = 0"
    | (menu) "default_case c" "menuStatus s \<noteq> 0"
    unfolding default_case_def by blast
  then show ?thesis
  proof cases
    case P
    then have "s' = clearFlags (s\<lparr>doprocdump := 1\<rparr>)"
      using assms(2) by (simp add: consoleintr_char_def)
    then show ?thesis
      using assms(1) by (simp add: buffer_inv_def clearFlags_def)
  next
    case U
    then obtain s1 where k: "killLine s = Inr s1" and s': "s' = clearFlags s1"
      using assms(2) by (auto simp add: consoleintr_char_def key_codes split: sum.splits)
    from killLine_buffer_inv[OF k assms(1)] show ?thesis
      by (simp add: s' buffer_inv_def clearFlags_def)
  next
    case H
    show ?thesis
    proof (cases "menuStatus s = 0 \<and> input_e s \<noteq> input_w s")
      case True
      then obtain s1 where put: "consputc (s\<lparr>input_e := input_e s - 1\<rparr>) BACKSPACE = Inr s1"
        and s': "s' = clearFlags s1"
        using assms(2) H by (auto simp add: consoleintr_char_def key_codes split: sum.splits)
      have "buffer_inv (s\<lparr>input_e := input_e s - 1\<rparr>)"
        using buffer_inv_erase[OF assms(1)] True by simp
      then have "buffer_inv s1"
        using consputc_keeps[OF put] buffer_inv_cong[of s1 "s\<lparr>input_e := input_e s - 1\<rparr>"]
        by simp
      then show ?thesis
        by (simp add: s' buffer_inv_def clearFlags_def)
    next
      case False
      then have "s' = clearFlags s"
        using assms(2) H by (auto simp add: consoleintr_char_def key_codes split: if_splits)
      then show ?thesis
        using assms(1) by (simp add: buffer_inv_def clearFlags_def)
    qed
  next
    case alt
    then have "input_r s' = input_r s \<and> input_w s' = input_w s \<and> input_e s' = input_e s"
      using assms(2)
      by (auto simp add: consoleintr_char_def key_codes clearFlags_def Let_def
          loadBackground_eq saveBackground_eq split: if_splits)
    then show ?thesis
      using assms(1) by (simp add: buffer_inv_def)
  next
    case closed
    show ?thesis
    proof (cases "c \<noteq> 0 \<and> input_e s - input_r s < of_nat INPUT_BUF")
      case True
      define c1 where "c1 = (if c = 0x0D then 0x0A else c)"
      define s2 where "s2 = (clearFlags s)\<lparr>input_buf := (input_buf (clearFlags s))
              (unat (input_e (clearFlags s)) mod INPUT_BUF := ucast c1),
            input_e := input_e (clearFlags s) + 1\<rparr>"
      from True closed assms(2) obtain s3 where put: "consputc s2 c1 = Inr s3"
        and s': "s' = (if c1 = 0x0A \<or> c1 = C CHR ''D'' \<or>
                          input_e s3 = input_r s3 + of_nat INPUT_BUF
                       then s3\<lparr>input_w := input_e s3\<rparr> else s3)"
        unfolding default_case_def
        by (auto simp add: consoleintr_char_def Let_def c1_def s2_def split: sum.splits)
      have s2: "input_r s2 = input_r s" "input_w s2 = input_w s" "input_e s2 = input_e s + 1"
        by (simp_all add: s2_def clearFlags_def)
      have s3: "input_r s3 = input_r s" "input_w s3 = input_w s" "input_e s3 = input_e s + 1"
        using consputc_keeps[OF put] s2 by simp_all
      have "buffer_inv s3"
        using buffer_inv_append[OF assms(1)] True assms(1) s3
        by (simp add: buffer_inv_def)
      then show ?thesis
        by (simp add: s' buffer_inv_def)
    next
      case False
      then have "s' = s"
        using closed assms(2) unfolding default_case_def
        by (auto simp add: consoleintr_char_def)
      then show ?thesis
        using assms(1) by simp
    qed
  next
    case menu
    then have "s' = (if c \<noteq> 0 then clearFlags (menu_redraw s (ucast c))
                     else menu_redraw s (ucast c))"
      using assms(2) unfolding default_case_def
      by (auto simp add: consoleintr_char_def menu_redraw_def Let_def)
    then have "input_r s' = input_r s \<and> input_w s' = input_w s \<and> input_e s' = input_e s"
      by (simp add: clearFlags_def menu_redraw_keeps)
    then show ?thesis
      using assms(1) by (simp add: buffer_inv_def)
  qed
qed

section \<open>Reading\<close>

lemma ucast_scast_byte: "(ucast (scast (b::cchar) :: cint) :: cchar) = b"
  by (rule bit_word_eqI) (auto simp add: bit_simps)

lemma scast_byte_eq_4: "(scast (b::cchar) :: cint) = 4 \<longleftrightarrow> b = 4"
proof
  assume "(scast b :: cint) = 4"
  then have "(ucast (scast b :: cint) :: cchar) = ucast (4 :: cint)"
    by simp
  then show "b = 4"
    by (simp add: ucast_scast_byte)
next
  assume "b = 4"
  then show "(scast b :: cint) = 4" by simp
qed

lemma scast_byte_eq_10: "(scast (b::cchar) :: cint) = 10 \<longleftrightarrow> b = 10"
proof
  assume "(scast b :: cint) = 10"
  then have "(ucast (scast b :: cint) :: cchar) = ucast (10 :: cint)"
    by simp
  then show "b = 10"
    by (simp add: ucast_scast_byte)
next
  assume "b = 10"
  then show "(scast b :: cint) = 10" by simp
qed

lemma pending_0: "pending s 0 = input_buf s (unat (input_r s) mod INPUT_BUF)"
  by (simp add: pending_def)

lemma pending_advance: "pending (s\<lparr>input_r := input_r s + 1\<rparr>) i = pending s (Suc i)"
  by (simp add: pending_def add.assoc)

lemma map_pending_Suc:
  "map (pending s) [0..<Suc k] =
     pending s 0 # map (pending (s\<lparr>input_r := input_r s + 1\<rparr>)) [0..<k]"
proof -
  have "[0..<Suc k] = 0 # map Suc [0..<k]"
    by (simp add: upt_conv_Cons map_Suc_upt del: upt_Suc)
  then show ?thesis
    by (simp add: pending_advance comp_def del: upt_Suc)
qed

lemma read_outcome_step:
  assumes n: "0 < n" and ne: "input_r s \<noteq> input_w s"
    and b4: "pending s 0 \<noteq> 4" and b10: "pending s 0 \<noteq> 0x0A"
    and rest: "read_outcome killed target (s\<lparr>input_r := input_r s + 1\<rparr>) (n - 1)
                 (dst @ [pending s 0]) k out"
  shows "read_outcome killed target s n dst (Suc k) out"
proof -
  obtain res dst' s' where out: "out = (res, dst', s')"
    by (cases out)
  let ?s1 = "s\<lparr>input_r := input_r s + 1\<rparr>"
  note r = rest[unfolded out read_outcome_def prod.case]
  have adv: "input_r ?s1 + of_nat i = input_r s + of_nat (Suc i)" for i
    by simp
  note r_frame = r[THEN conjunct1]
    and r_dst = r[THEN conjunct2, THEN conjunct1]
    and r_cnt = r[THEN conjunct2, THEN conjunct2, THEN conjunct1]
    and r_run = r[THEN conjunct2, THEN conjunct2, THEN conjunct2, THEN conjunct1]
    and r_stop = r[THEN conjunct2, THEN conjunct2, THEN conjunct2, THEN conjunct2]
  have "s' = ?s1\<lparr>input_r := input_r s'\<rparr>"
    by (rule r_frame)
  also have "\<dots> = s\<lparr>input_r := input_r s'\<rparr>"
    by simp
  finally have frame: "s' = s\<lparr>input_r := input_r s'\<rparr>" .
  have dst: "dst' = dst @ map (pending s) [0..<Suc k]"
    unfolding r_dst map_pending_Suc by simp
  have cnt: "int (Suc k) \<le> max n 0"
    using r_cnt n by simp
  have run: "\<forall>i<Suc k. input_r s + of_nat i \<noteq> input_w s \<and> pending s i \<noteq> 4 \<and>
                (Suc i < Suc k \<longrightarrow> pending s i \<noteq> 0x0A)"
  proof (intro allI impI)
    fix i assume i: "i < Suc k"
    show "input_r s + of_nat i \<noteq> input_w s \<and> pending s i \<noteq> 4 \<and>
                (Suc i < Suc k \<longrightarrow> pending s i \<noteq> 0x0A)"
    proof (cases i)
      case 0
      then show ?thesis using ne b4 b10 by simp
    next
      case (Suc j)
      then have "j < k" using i by simp
      with r_run have "input_r ?s1 + of_nat j \<noteq> input_w ?s1 \<and> pending ?s1 j \<noteq> 4 \<and>
                (Suc j < k \<longrightarrow> pending ?s1 j \<noteq> 0x0A)"
        by blast
      then show ?thesis
        unfolding Suc pending_advance adv by simp
    qed
  qed
  have stop: "res = Return (target - (n - int (Suc k))) \<and> 0 < Suc k \<and>
           pending s (Suc k - 1) = 0x0A \<and> input_r s' = input_r s + of_nat (Suc k)
         \<or> res = Return (target - (n - int (Suc k))) \<and> int (Suc k) = max n 0 \<and>
           input_r s' = input_r s + of_nat (Suc k)
         \<or> res = Return (target - (n - int (Suc k))) \<and> int (Suc k) < n \<and>
           input_r s + of_nat (Suc k) \<noteq> input_w s \<and> pending s (Suc k) = 4 \<and>
           input_r s' = (if n - int (Suc k) < target then input_r s + of_nat (Suc k)
                         else input_r s + of_nat (Suc k) + 1)
         \<or> res = (if killed then Return (- 1) else Sleep (n - int (Suc k))) \<and> int (Suc k) < n \<and>
           input_r s + of_nat (Suc k) = input_w s \<and> input_r s' = input_w s"
  proof -
    have n1: "n - 1 - int k = n - int (Suc k)"
      by simp
    have k1: "0 < k \<Longrightarrow> pending ?s1 (k - 1) = pending s (Suc k - 1)"
      by (cases k) (simp_all add: pending_advance)
    from r_stop consider
      (newline) "res = Return (target - (n - 1 - int k))" "0 < k" "pending ?s1 (k - 1) = 0x0A"
        "input_r s' = input_r ?s1 + of_nat k"
      | (count) "res = Return (target - (n - 1 - int k))" "int k = max (n - 1) 0"
        "input_r s' = input_r ?s1 + of_nat k"
      | (marker) "res = Return (target - (n - 1 - int k))" "int k < n - 1"
        "input_r ?s1 + of_nat k \<noteq> input_w ?s1" "pending ?s1 k = 4"
        "input_r s' = (if n - 1 - int k < target then input_r ?s1 + of_nat k
                         else input_r ?s1 + of_nat k + 1)"
      | (empty) "res = (if killed then Return (- 1) else Sleep (n - 1 - int k))" "int k < n - 1"
        "input_r ?s1 + of_nat k = input_w ?s1" "input_r s' = input_w ?s1"
      by blast
    then show ?thesis
    proof cases
      case newline
      then show ?thesis
        using k1 unfolding n1 adv by simp
    next
      case count
      then show ?thesis
        using n unfolding n1 adv by simp
    next
      case marker
      then show ?thesis
        unfolding n1 adv pending_advance by simp
    next
      case empty
      then show ?thesis
        unfolding n1 adv by simp
    qed
  qed
  show ?thesis
    unfolding out read_outcome_def prod.case using frame dst cnt run stop by blast
qed

lemma consoleread_loop_outcome:
  "\<exists>k. read_outcome killed target s n dst k (consoleread_loop killed target s n dst)"
proof (induction killed target s n dst rule: consoleread_loop.induct)
  case (1 killed target s n dst)
  let ?c = "scast (input_buf s (unat (input_r s) mod INPUT_BUF)) :: cint"
  let ?s1 = "s\<lparr>input_r := input_r s + 1\<rparr>"
  consider (nocount) "\<not> 0 < n"
    | (empty) "0 < n" "input_r s = input_w s"
    | (marker) "0 < n" "input_r s \<noteq> input_w s" "pending s 0 = 4"
    | (newline) "0 < n" "input_r s \<noteq> input_w s" "pending s 0 \<noteq> 4" "pending s 0 = 0x0A"
    | (byte) "0 < n" "input_r s \<noteq> input_w s" "pending s 0 \<noteq> 4" "pending s 0 \<noteq> 0x0A"
    by blast
  then show ?case
  proof cases
    case nocount
    then have "consoleread_loop killed target s n dst = (Return (target - n), dst, s)"
      by (subst consoleread_loop.simps) simp
    then have "read_outcome killed target s n dst 0 (consoleread_loop killed target s n dst)"
      using nocount by (simp add: read_outcome_def)
    then show ?thesis ..
  next
    case empty
    then have "consoleread_loop killed target s n dst =
                 (if killed then Return (- 1) else Sleep n, dst, s)"
      by (subst consoleread_loop.simps) simp
    then have "read_outcome killed target s n dst 0 (consoleread_loop killed target s n dst)"
      using empty by (simp add: read_outcome_def)
    then show ?thesis ..
  next
    case marker
    then have c: "?c = C CHR ''D''"
      by (simp add: key_codes scast_byte_eq_4 pending_0)
    have "consoleread_loop killed target s n dst =
            (Return (target - n), dst,
             if n < target then ?s1\<lparr>input_r := input_r ?s1 - 1\<rparr> else ?s1)"
      using marker(1,2) c by (subst consoleread_loop.simps) (simp add: Let_def)
    then have "read_outcome killed target s n dst 0 (consoleread_loop killed target s n dst)"
      using marker by (simp add: read_outcome_def)
    then show ?thesis ..
  next
    case newline
    then have c: "?c \<noteq> C CHR ''D''" "?c = 0x0A"
      by (simp_all add: key_codes scast_byte_eq_4 scast_byte_eq_10 pending_0)
    have "consoleread_loop killed target s n dst =
            (Return (target - (n - 1)), dst @ [ucast ?c], ?s1)"
      using newline(1,2) c by (subst consoleread_loop.simps) (simp add: Let_def)
    then have "read_outcome killed target s n dst 1 (consoleread_loop killed target s n dst)"
      using newline by (simp add: read_outcome_def ucast_scast_byte pending_0)
    then show ?thesis ..
  next
    case byte
    then have c: "?c \<noteq> C CHR ''D''" "?c \<noteq> 0x0A"
      by (simp_all add: key_codes scast_byte_eq_4 scast_byte_eq_10 pending_0)
    have run: "consoleread_loop killed target s n dst =
                 consoleread_loop killed target ?s1 (n - 1) (dst @ [pending s 0])"
      using byte(1,2) c
      by (subst consoleread_loop.simps) (simp add: Let_def ucast_scast_byte pending_0)
    from "1.IH"[OF byte(1,2) refl refl c] obtain k where
      "read_outcome killed target ?s1 (n - 1) (dst @ [ucast ?c]) k
         (consoleread_loop killed target ?s1 (n - 1) (dst @ [ucast ?c]))"
      by blast
    then have "read_outcome killed target ?s1 (n - 1) (dst @ [pending s 0]) k
         (consoleread_loop killed target s n dst)"
      by (simp add: run ucast_scast_byte pending_0)
    from read_outcome_step[OF byte this]
    show ?thesis ..
  qed
qed

lemma consoleread_loop_buffer_inv:
  assumes "buffer_inv s"
  shows "buffer_inv (snd (snd (consoleread_loop killed target s n dst)))"
proof -
  obtain res dst' s' where out: "consoleread_loop killed target s n dst = (res, dst', s')"
    by (cases "consoleread_loop killed target s n dst")
  from consoleread_loop_outcome[of killed target s n dst] obtain k where
    r: "read_outcome killed target s n dst k (res, dst', s')"
    unfolding out by blast
  note r = r[unfolded read_outcome_def prod.case]
  have frame: "s' = s\<lparr>input_r := input_r s'\<rparr>"
    by (rule r[THEN conjunct1])
  have we: "input_w s' = input_w s" "input_e s' = input_e s"
    using arg_cong[OF frame, of input_w] arg_cong[OF frame, of input_e] by simp_all
  have within: "\<forall>i<k. input_r s + of_nat i \<noteq> input_w s"
    using r by blast
  have klen: "k \<le> unat (input_w s - input_r s)"
  proof (rule ccontr)
    assume "\<not> k \<le> unat (input_w s - input_r s)"
    then have "unat (input_w s - input_r s) < k"
      by simp
    with within have "input_r s + of_nat (unat (input_w s - input_r s)) \<noteq> input_w s"
      by blast
    then show False by simp
  qed
  have unat_k: "unat (of_nat k :: cint) = k"
    using klen by (rule le_unat_uoi)
  have pos: "input_r s' = input_r s + of_nat k \<or>
             (input_r s' = input_r s + of_nat k + 1 \<and> input_r s + of_nat k \<noteq> input_w s)"
    using r by (auto split: if_splits)
  have at_k: "unat (input_w s - (input_r s + of_nat k)) = unat (input_w s - input_r s) - k \<and>
              unat (input_e s - (input_r s + of_nat k)) = unat (input_e s - input_r s) - k"
  proof -
    have le_w: "of_nat k \<le> input_w s - input_r s"
      using klen by (simp add: word_le_nat_alt unat_k)
    have le_e: "of_nat k \<le> input_e s - input_r s"
      using klen assms by (simp add: word_le_nat_alt unat_k buffer_inv_def)
    have eq: "input_w s - (input_r s + of_nat k) = (input_w s - input_r s) - of_nat k"
      "input_e s - (input_r s + of_nat k) = (input_e s - input_r s) - of_nat k"
      by simp_all
    show ?thesis
      unfolding eq unat_sub[OF le_w] unat_sub[OF le_e] unat_k by simp
  qed
  have inv_k: "buffer_inv (s\<lparr>input_r := input_r s + of_nat k\<rparr>)"
    using assms at_k by (auto simp add: buffer_inv_def)
  from pos consider (k) "input_r s' = input_r s + of_nat k"
    | (k1) "input_r s' = input_r s + of_nat k + 1" "input_r s + of_nat k \<noteq> input_w s"
    by blast
  then have "buffer_inv s'"
  proof cases
    case k
    then show ?thesis
      using inv_k we by (simp add: buffer_inv_def)
  next
    case k1
    let ?t = "s\<lparr>input_r := input_r s + of_nat k\<rparr>"
    have nz: "input_w s - (input_r s + of_nat k) \<noteq> 0"
      using k1(2) by simp
    have e1: "input_w s - (input_r s + of_nat k + 1) = (input_w s - (input_r s + of_nat k)) - 1"
      "input_e s - (input_r s + of_nat k + 1) = (input_e s - (input_r s + of_nat k)) - 1"
      by simp_all
    have nz': "input_e s - (input_r s + of_nat k) \<noteq> 0"
      using nz inv_k by (auto simp add: buffer_inv_def simp flip: unat_eq_0)
    have "unat (input_w s - (input_r s + of_nat k + 1)) =
            unat (input_w s - (input_r s + of_nat k)) - 1"
      "unat (input_e s - (input_r s + of_nat k + 1)) =
            unat (input_e s - (input_r s + of_nat k)) - 1"
      unfolding e1 using nz nz' by (simp_all add: unat_minus_one)
    then show ?thesis
      using inv_k k1(1) we by (auto simp add: buffer_inv_def)
  qed
  then show ?thesis
    by (simp add: out)
qed

section \<open>What one character does to the handler state\<close>

lemma consoleintr_char_returns:
  assumes "panicked s = 0" and "uint (cursor s) < 1920"
  shows "\<exists>s'. consoleintr_char s c = Inr s' \<and> panicked s' = 0 \<and> uint (cursor s') < 1920"
proof -
  consider (P) "c = C CHR ''P''" | (U) "c = C CHR ''U''" | (H) "c = C CHR ''H'' \<or> c = 0x7f"
    | (alt) "c = A CHR ''c'' \<or> c = A CHR ''o'' \<or> c = A CHR ''l''"
    | (closed) "default_case c" "menuStatus s = 0"
    | (menu) "default_case c" "menuStatus s \<noteq> 0"
    unfolding default_case_def by blast
  then show ?thesis
  proof cases
    case P
    then show ?thesis
      using assms by (simp add: consoleintr_char_def clearFlags_def)
  next
    case U
    from killLine_returns[OF assms] obtain s1 where
      k: "killLine s = Inr s1" "uint (cursor s1) < 1920"
      by blast
    with U killLine_keeps[OF k(1)] assms(1) show ?thesis
      by (simp add: consoleintr_char_def key_codes clearFlags_def)
  next
    case H
    obtain s1 where put: "consputc (s\<lparr>input_e := input_e s - 1\<rparr>) BACKSPACE = Inr s1"
      and cur: "uint (cursor s1) < 1920"
      using consputc_returns[of "s\<lparr>input_e := input_e s - 1\<rparr>" BACKSPACE] assms by auto
    have "panicked s1 = 0"
      using consputc_keeps[OF put] assms(1) by simp
    with H put cur assms show ?thesis
      by (auto simp add: consoleintr_char_def key_codes clearFlags_def)
  next
    case alt
    then show ?thesis
      using assms
      by (auto simp add: consoleintr_char_def key_codes clearFlags_def Let_def
          loadBackground_eq saveBackground_eq)
  next
    case closed
    show ?thesis
    proof (cases "c \<noteq> 0 \<and> input_e s - input_r s < of_nat INPUT_BUF")
      case True
      define c1 where "c1 = (if c = 0x0D then 0x0A else c)"
      define s2 where "s2 = (clearFlags s)\<lparr>input_buf := (input_buf (clearFlags s))
              (unat (input_e (clearFlags s)) mod INPUT_BUF := ucast c1),
            input_e := input_e (clearFlags s) + 1\<rparr>"
      have "panicked s2 = 0" "uint (cursor s2) < 1920"
        using assms by (simp_all add: s2_def clearFlags_def)
      from consputc_returns[OF this, of c1] obtain s3 where
        put: "consputc s2 c1 = Inr s3" and cur: "uint (cursor s3) < 1920"
        by blast
      have "panicked s3 = 0"
        using consputc_keeps[OF put] \<open>panicked s2 = 0\<close> by simp
      with True closed put cur show ?thesis
        unfolding default_case_def
        by (auto simp add: consoleintr_char_def Let_def c1_def s2_def)
    next
      case False
      then show ?thesis
        using closed assms unfolding default_case_def
        by (auto simp add: consoleintr_char_def)
    qed
  next
    case menu
    then have "consoleintr_char s c =
                 Inr (if c \<noteq> 0 then clearFlags (menu_redraw s (ucast c))
                      else menu_redraw s (ucast c))"
      unfolding default_case_def
      by (auto simp add: consoleintr_char_def menu_redraw_def Let_def)
    then show ?thesis
      using assms by (simp add: clearFlags_def menu_redraw_keeps)
  qed
qed

lemma menu_toggle_keeps:
  "menuStatus (loadBackground s) = menuStatus s \<and> menuStatus (saveBackground s) = menuStatus s \<and>
   flagC (loadBackground s) = flagC s \<and> flagC (saveBackground s) = flagC s \<and>
   flagO (loadBackground s) = flagO s \<and> flagO (saveBackground s) = flagO s"
  by (simp add: loadBackground_eq saveBackground_eq)

text \<open>What one character does to the two flags and to \<^verbatim>\<open>menuStatus\<close>.\<close>

lemma consoleintr_char_flags:
  assumes "consoleintr_char s c = Inr s'"
  shows "(flagC s', flagO s') =
           (if c = A CHR ''c'' then (1, 0)
            else if c = A CHR ''o'' \<and> flagC s \<noteq> 0 \<and> flagO s = 0 then (flagC s, 1)
            else if ignored s c then (flagC s, flagO s)
            else (0, 0)) \<and>
         menuStatus s' =
           (if c = A CHR ''l'' \<and> flagC s \<noteq> 0 \<and> flagO s \<noteq> 0
            then (if menuStatus s = 0 then 1 else 0) else menuStatus s)"
proof -
  consider (P) "c = C CHR ''P''" | (U) "c = C CHR ''U''" | (H) "c = C CHR ''H'' \<or> c = 0x7f"
    | (Ac) "c = A CHR ''c''" | (Ao) "c = A CHR ''o''" | (Al) "c = A CHR ''l''"
    | (closed) "default_case c" "menuStatus s = 0"
    | (menu) "default_case c" "menuStatus s \<noteq> 0"
    unfolding default_case_def by blast
  then show ?thesis
  proof cases
    case P
    then show ?thesis
      using assms
      by (auto simp add: consoleintr_char_def key_codes clearFlags_def ignored_def
          dropped_def default_case_def)
  next
    case U
    then obtain s1 where k: "killLine s = Inr s1" and s': "s' = clearFlags s1"
      using assms by (auto simp add: consoleintr_char_def key_codes split: sum.splits)
    show ?thesis
      using U killLine_keeps[OF k]
      by (simp add: s' key_codes clearFlags_def ignored_def dropped_def default_case_def)
  next
    case H
    have ign: "\<not> ignored s c" "c \<noteq> A CHR ''c''" "c \<noteq> A CHR ''o''" "c \<noteq> A CHR ''l''"
      using H by (auto simp add: key_codes ignored_def dropped_def default_case_def)
    show ?thesis
    proof (cases "menuStatus s = 0 \<and> input_e s \<noteq> input_w s")
      case True
      then obtain s1 where put: "consputc (s\<lparr>input_e := input_e s - 1\<rparr>) BACKSPACE = Inr s1"
        and s': "s' = clearFlags s1"
        using assms H by (auto simp add: consoleintr_char_def key_codes split: sum.splits)
      show ?thesis
        using consputc_keeps[OF put] ign by (simp add: s' clearFlags_def)
    next
      case False
      then have "s' = clearFlags s"
        using assms H by (auto simp add: consoleintr_char_def key_codes split: if_splits)
      then show ?thesis
        using ign by (simp add: clearFlags_def)
    qed
  next
    case Ac
    then have "s' = s\<lparr>flagC := 1, flagO := 0\<rparr>"
      using assms by (simp add: consoleintr_char_def key_codes)
    then show ?thesis
      using Ac by (simp add: key_codes)
  next
    case Ao
    then have "s' = (if flagO s \<noteq> 0 then clearFlags s
                     else if flagC s \<noteq> 0 then s\<lparr>flagO := 1\<rparr> else clearFlags s)"
      using assms by (simp add: consoleintr_char_def key_codes split: if_splits)
    moreover have "\<not> ignored s c"
      using Ao by (simp add: key_codes ignored_def dropped_def default_case_def)
    ultimately show ?thesis
      using Ao by (simp add: key_codes clearFlags_def)
  next
    case Al
    then have "s' = (if flagC s \<noteq> 0 \<and> flagO s \<noteq> 0
                     then clearFlags ((if menuStatus s \<noteq> 0 then loadBackground s
                                       else saveBackground s)
                            \<lparr>menuStatus := (if menuStatus s = 0 then 1 else 0)\<rparr>)
                     else clearFlags s)"
      using assms
      by (auto simp add: consoleintr_char_def key_codes Let_def menu_toggle_keeps)
    moreover have "\<not> ignored s c"
      using Al by (simp add: key_codes ignored_def dropped_def default_case_def)
    ultimately show ?thesis
      using Al by (simp add: key_codes clearFlags_def menu_toggle_keeps)
  next
    case closed
    have keys: "c \<noteq> A CHR ''c''" "c \<noteq> A CHR ''o''" "c \<noteq> A CHR ''l''"
      using closed(1) by (simp_all add: default_case_def)
    show ?thesis
    proof (cases "c \<noteq> 0 \<and> input_e s - input_r s < of_nat INPUT_BUF")
      case True
      define c1 where "c1 = (if c = 0x0D then 0x0A else c)"
      define s2 where "s2 = (clearFlags s)\<lparr>input_buf := (input_buf (clearFlags s))
              (unat (input_e (clearFlags s)) mod INPUT_BUF := ucast c1),
            input_e := input_e (clearFlags s) + 1\<rparr>"
      from True closed assms obtain s3 where put: "consputc s2 c1 = Inr s3"
        and s': "s' = (if c1 = 0x0A \<or> c1 = C CHR ''D'' \<or>
                          input_e s3 = input_r s3 + of_nat INPUT_BUF
                       then s3\<lparr>input_w := input_e s3\<rparr> else s3)"
        unfolding default_case_def
        by (auto simp add: consoleintr_char_def Let_def c1_def s2_def split: sum.splits)
      have "flagC s3 = 0" "flagO s3 = 0" "menuStatus s3 = menuStatus s"
        using consputc_keeps[OF put] by (simp_all add: s2_def clearFlags_def)
      moreover have "\<not> ignored s c"
        using True by (simp add: ignored_def dropped_def)
      ultimately show ?thesis
        using keys by (simp add: s')
    next
      case False
      then have "s' = s" "ignored s c"
        using closed assms unfolding default_case_def
        by (auto simp add: consoleintr_char_def ignored_def dropped_def default_case_def)
      then show ?thesis
        using keys by simp
    qed
  next
    case menu
    have keys: "c \<noteq> A CHR ''c''" "c \<noteq> A CHR ''o''" "c \<noteq> A CHR ''l''"
      using menu(1) by (simp_all add: default_case_def)
    have "s' = (if c \<noteq> 0 then clearFlags (menu_redraw s (ucast c))
                else menu_redraw s (ucast c))"
      using menu assms unfolding default_case_def
      by (auto simp add: consoleintr_char_def menu_redraw_def Let_def)
    then show ?thesis
      using keys menu(2)
      by (simp add: clearFlags_def menu_redraw_keeps ignored_def dropped_def)
  qed
qed

section \<open>Claims about the input buffer\<close>

lemma buffer_inv_unwrapped:
  "buffer_inv s \<longleftrightarrow>
     (\<exists>R W E :: nat. R \<le> W \<and> W \<le> E \<and> E \<le> R + 128 \<and>
        input_r s = of_nat R \<and> input_w s = of_nat W \<and> input_e s = of_nat E)"
proof
  assume inv: "buffer_inv s"
  let ?R = "unat (input_r s)"
  let ?W = "?R + unat (input_w s - input_r s)"
  let ?E = "?R + unat (input_e s - input_r s)"
  have "input_r s = of_nat ?R" "input_w s = of_nat ?W" "input_e s = of_nat ?E"
    by simp_all
  moreover have "?R \<le> ?W" "?W \<le> ?E" "?E \<le> ?R + 128"
    using inv by (simp_all add: buffer_inv_def INPUT_BUF_def)
  ultimately show "\<exists>R W E :: nat. R \<le> W \<and> W \<le> E \<and> E \<le> R + 128 \<and>
        input_r s = of_nat R \<and> input_w s = of_nat W \<and> input_e s = of_nat E"
    by blast
next
  assume "\<exists>R W E :: nat. R \<le> W \<and> W \<le> E \<and> E \<le> R + 128 \<and>
        input_r s = of_nat R \<and> input_w s = of_nat W \<and> input_e s = of_nat E"
  then obtain R W E :: nat where le: "R \<le> W" "W \<le> E" "E \<le> R + 128"
    and idx: "input_r s = of_nat R" "input_w s = of_nat W" "input_e s = of_nat E"
    by blast
  have small: "unat (of_nat d :: cint) = d" if "d \<le> 128" for d
    using that by (simp add: unat_of_nat)
  have "input_w s - input_r s = of_nat (W - R)" "input_e s - input_r s = of_nat (E - R)"
    using le by (simp_all add: idx)
  then have "unat (input_w s - input_r s) = W - R" "unat (input_e s - input_r s) = E - R"
    using le by (simp_all only: small)
  then show "buffer_inv s"
    using le by (auto simp add: buffer_inv_def INPUT_BUF_def)
qed

text \<open>The handler loop reads nothing after the first negative result of \<^verbatim>\<open>getc\<close>.\<close>

lemma consoleintr_loop_exit:
  "sint c < 0 \<Longrightarrow> consoleintr_loop s (c # cs) = Inr s"
  by simp

lemma consoleintr_loop_buffer_inv:
  "buffer_inv s \<Longrightarrow> consoleintr_loop s cs = Inr s' \<Longrightarrow> buffer_inv s'"
proof (induction cs arbitrary: s)
  case Nil
  then show ?case by simp
next
  case (Cons c cs)
  show ?case
  proof (cases "0 \<le> sint c")
    case True
    with Cons.prems(2) obtain s1 where step: "consoleintr_char s c = Inr s1"
      and rest: "consoleintr_loop s1 cs = Inr s'"
      by (auto split: sum.splits)
    from Cons.IH[OF consoleintr_char_buffer_inv[OF Cons.prems(1) step] rest]
    show ?thesis .
  next
    case False
    with Cons.prems show ?thesis by simp
  qed
qed

text \<open>
  C2. The invariant \<open>read \<le> write \<le> edit \<le> read + 128\<close> (\<open>buffer_inv\<close>, which by
  \<open>buffer_inv_unwrapped\<close> is that statement on un-wrapped indices) holds of the initial
  buffer, and from a state where it holds it holds again after every character the
  interrupt handler processes, after a whole run of \<^verbatim>\<open>consoleintr\<close>, and in the state
  \<^verbatim>\<open>consoleread\<close> leaves, whether it returns or sleeps, also when its loop is resumed after
  a sleep.
\<close>

theorem buffer_invariant_preserved:
  assumes "buffer_inv s"
  shows "buffer_inv blank_console \<and>
         (consoleintr_char s c = Inr s' \<longrightarrow> buffer_inv s') \<and>
         (consoleintr s cs = Inr s'' \<longrightarrow> buffer_inv s'') \<and>
         buffer_inv (snd (snd (consoleread s killed n))) \<and>
         buffer_inv (snd (snd (consoleread_loop killed target s m dst)))"
proof -
  have "buffer_inv (s\<lparr>doprocdump := 0\<rparr>)"
    using assms by (simp add: buffer_inv_def)
  then have "consoleintr s cs = Inr s'' \<longrightarrow> buffer_inv s''"
    using consoleintr_loop_buffer_inv[of "s\<lparr>doprocdump := 0\<rparr>" cs s'']
    by (simp add: consoleintr_def)
  moreover have "buffer_inv blank_console"
    by (simp add: buffer_inv_def blank_console_def)
  ultimately show ?thesis
    using consoleintr_char_buffer_inv[OF assms, of c s']
      consoleread_loop_buffer_inv[OF assms]
    by (simp add: consoleread_def)
qed

theorem buffer_invariant_preserved_witness:
  "buffer_inv abc_typed \<and>
   (\<exists>s'. consoleintr_char abc_typed 0x0A = Inr s' \<and> buffer_inv s' \<and>
         input_w s' = 4 \<and> input_e s' = 4 \<and> input_r s' = 0) \<and>
   buffer_inv hi_line \<and>
   buffer_inv (snd (snd (consoleread hi_line False 3)))"
proof -
  have inv: "buffer_inv abc_typed" "buffer_inv hi_line"
    by (simp_all add: buffer_inv_def abc_typed_def hi_line_def blank_console_def INPUT_BUF_def)
  obtain s' where step: "consoleintr_char abc_typed 0x0A = Inr s'"
    using consoleintr_char_returns[of abc_typed "0x0A"]
    by (auto simp add: abc_typed_def blank_console_def)
  have dflt: "default_case 0x0A"
    by (simp add: default_case_def key_codes)
  obtain s3 where put: "consputc ((clearFlags abc_typed)
        \<lparr>input_buf := (input_buf (clearFlags abc_typed))
           (unat (input_e (clearFlags abc_typed)) mod INPUT_BUF := ucast (0x0A :: cint)),
         input_e := input_e (clearFlags abc_typed) + 1\<rparr>) 0x0A = Inr s3"
    and s': "s' = s3\<lparr>input_w := input_e s3\<rparr>"
    using step
    by (auto simp add: consoleintr_char_def key_codes Let_def abc_typed_def blank_console_def
        INPUT_BUF_def clearFlags_def split: sum.splits)
  have idx: "input_w s' = 4 \<and> input_e s' = 4 \<and> input_r s' = 0"
    using consputc_keeps[OF put]
    by (simp add: s' abc_typed_def blank_console_def clearFlags_def)
  show ?thesis
    using inv step idx buffer_invariant_preserved[OF inv(1), of "0x0A" s']
      buffer_invariant_preserved[OF inv(2), of _ _ _ _ False 3]
    by simp
qed

section \<open>Claims about the key sequence and the menu mode\<close>

text \<open>
  C5, as stated, fails: a NUL with \<^verbatim>\<open>flagC\<close> set leaves \<^verbatim>\<open>flagC\<close> set, with the menu
  closed and with it open, and so does an ordinary character (\<^verbatim>\<open>'x'\<close>) that arrives when
  the buffer is full and the menu is closed.
\<close>

theorem flags_survive_ignored_counterexample:
  "flagC armed_c = 1 \<and>
   consoleintr_char armed_c 0 = Inr armed_c \<and>
   flagC (projr (consoleintr_char (armed_c\<lparr>menuStatus := 1\<rparr>) 0)) = 1 \<and>
   flagC full_armed_c = 1 \<and>
   consoleintr_char full_armed_c 0x78 = Inr full_armed_c"
proof -
  have a: "consoleintr_char armed_c 0 = Inr armed_c"
    by (simp add: consoleintr_char_def key_codes armed_c_def blank_console_def)
  have b: "consoleintr_char full_armed_c 0x78 = Inr full_armed_c"
    by (simp add: consoleintr_char_def key_codes full_armed_c_def blank_console_def
        INPUT_BUF_def)
  have "consoleintr_char (armed_c\<lparr>menuStatus := 1\<rparr>) 0 =
          Inr (menu_redraw (armed_c\<lparr>menuStatus := 1\<rparr>) 0)"
    by (simp add: consoleintr_char_def key_codes armed_c_def blank_console_def
        menu_redraw_def Let_def)
  then have c: "flagC (projr (consoleintr_char (armed_c\<lparr>menuStatus := 1\<rparr>) 0)) = 1"
    by (simp add: menu_redraw_keeps armed_c_def)
  show ?thesis
    using a b c by (simp add: armed_c_def full_armed_c_def)
qed

text \<open>
  C5, as the code has it. After a character is handled, both flags are 0 unless the
  character is Alt-c (which sets \<^verbatim>\<open>flagC\<close> and clears \<^verbatim>\<open>flagO\<close>), or the Alt-o that
  continues the sequence (\<^verbatim>\<open>flagC\<close> set, \<^verbatim>\<open>flagO\<close> clear: it sets \<^verbatim>\<open>flagO\<close>), or an
  ignored character: a NUL, or a character of the default case that arrives with the menu
  closed and the buffer full. An ignored character leaves both flags as they were.
\<close>

theorem flags_after_character:
  assumes "consoleintr_char s c = Inr s'"
  shows "(c \<noteq> A CHR ''c'' \<and> \<not> (c = A CHR ''o'' \<and> flagC s \<noteq> 0 \<and> flagO s = 0) \<and>
          \<not> ignored s c \<longrightarrow> flagC s' = 0 \<and> flagO s' = 0) \<and>
         (c = A CHR ''c'' \<longrightarrow> flagC s' = 1 \<and> flagO s' = 0) \<and>
         (c = A CHR ''o'' \<and> flagC s \<noteq> 0 \<and> flagO s = 0 \<longrightarrow>
            flagC s' = flagC s \<and> flagO s' = 1) \<and>
         (ignored s c \<longrightarrow> flagC s' = flagC s \<and> flagO s' = flagO s)"
proof -
  have ign: "ignored s c \<Longrightarrow> c \<noteq> A CHR ''c'' \<and> c \<noteq> A CHR ''o''"
    by (auto simp add: ignored_def dropped_def default_case_def key_codes)
  show ?thesis
    using consoleintr_char_flags[OF assms] ign by (auto simp add: key_codes split: if_splits)
qed

theorem flags_after_character_witness:
  "consoleintr_char (armed_c\<lparr>flagO := 1\<rparr>) 0x10 =
     Inr (clearFlags (armed_c\<lparr>flagO := 1, doprocdump := 1\<rparr>)) \<and>
   (0x10 :: cint) \<noteq> A CHR ''c'' \<and> (0x10 :: cint) \<noteq> A CHR ''o'' \<and>
   \<not> ignored (armed_c\<lparr>flagO := 1\<rparr>) 0x10 \<and>
   flagC (armed_c\<lparr>flagO := 1\<rparr>) = 1 \<and> flagO (armed_c\<lparr>flagO := 1\<rparr>) = 1 \<and>
   flagC (clearFlags (armed_c\<lparr>flagO := 1, doprocdump := 1\<rparr>)) = 0 \<and>
   flagO (clearFlags (armed_c\<lparr>flagO := 1, doprocdump := 1\<rparr>)) = 0 \<and>
   consoleintr_char armed_c (A CHR ''o'') = Inr (armed_c\<lparr>flagO := 1\<rparr>) \<and>
   consoleintr_char blank_console (A CHR ''c'') = Inr armed_c \<and>
   ignored armed_c 0 \<and> consoleintr_char armed_c 0 = Inr armed_c"
proof -
  have st: "consoleintr_char (armed_c\<lparr>flagO := 1\<rparr>) 0x10 =
     Inr (clearFlags (armed_c\<lparr>flagO := 1, doprocdump := 1\<rparr>))"
    "consoleintr_char armed_c (A CHR ''o'') = Inr (armed_c\<lparr>flagO := 1\<rparr>)"
    "consoleintr_char blank_console (A CHR ''c'') = Inr armed_c"
    "consoleintr_char armed_c 0 = Inr armed_c"
    by (simp_all add: consoleintr_char_def key_codes armed_c_def blank_console_def)
  have ig: "\<not> ignored (armed_c\<lparr>flagO := 1\<rparr>) 0x10" "ignored armed_c 0"
    by (simp_all add: ignored_def dropped_def default_case_def key_codes)
  show ?thesis
    using flags_after_character[OF st(1)] flags_after_character[OF st(2)]
      flags_after_character[OF st(3)] flags_after_character[OF st(4)] st ig
    by (simp add: key_codes armed_c_def blank_console_def)
qed

text \<open>When the snapshot and the restore run, and that the snapshot is otherwise left
  alone.\<close>

lemma consoleintr_char_toggle:
  assumes "consoleintr_char s c = Inr s'"
  shows "(c = A CHR ''l'' \<and> flagC s \<noteq> 0 \<and> flagO s \<noteq> 0 \<longrightarrow>
            s' = clearFlags ((if menuStatus s \<noteq> 0 then loadBackground s else saveBackground s)
                    \<lparr>menuStatus := (if menuStatus s = 0 then 1 else 0)\<rparr>)) \<and>
         (\<not> (c = A CHR ''l'' \<and> flagC s \<noteq> 0 \<and> flagO s \<noteq> 0) \<longrightarrow>
            backgroundBackup s' = backgroundBackup s)"
proof -
  consider (P) "c = C CHR ''P''" | (U) "c = C CHR ''U''" | (H) "c = C CHR ''H'' \<or> c = 0x7f"
    | (Ac) "c = A CHR ''c''" | (Ao) "c = A CHR ''o''" | (Al) "c = A CHR ''l''"
    | (closed) "default_case c" "menuStatus s = 0"
    | (menu) "default_case c" "menuStatus s \<noteq> 0"
    unfolding default_case_def by blast
  then show ?thesis
  proof cases
    case P
    then show ?thesis
      using assms by (auto simp add: consoleintr_char_def key_codes clearFlags_def)
  next
    case U
    then obtain s1 where k: "killLine s = Inr s1" and s': "s' = clearFlags s1"
      using assms by (auto simp add: consoleintr_char_def key_codes split: sum.splits)
    show ?thesis
      using U killLine_keeps[OF k] by (simp add: s' key_codes clearFlags_def)
  next
    case H
    have keys: "c \<noteq> A CHR ''l''"
      using H by (auto simp add: key_codes)
    show ?thesis
    proof (cases "menuStatus s = 0 \<and> input_e s \<noteq> input_w s")
      case True
      then obtain s1 where put: "consputc (s\<lparr>input_e := input_e s - 1\<rparr>) BACKSPACE = Inr s1"
        and s': "s' = clearFlags s1"
        using assms H by (auto simp add: consoleintr_char_def key_codes split: sum.splits)
      show ?thesis
        using consputc_keeps[OF put] keys by (simp add: s' clearFlags_def)
    next
      case False
      then have "s' = clearFlags s"
        using assms H by (auto simp add: consoleintr_char_def key_codes split: if_splits)
      then show ?thesis
        using keys by (simp add: clearFlags_def)
    qed
  next
    case Ac
    then have "s' = s\<lparr>flagC := 1, flagO := 0\<rparr>"
      using assms by (simp add: consoleintr_char_def key_codes)
    then show ?thesis
      using Ac by (simp add: key_codes)
  next
    case Ao
    then have "s' = (if flagO s \<noteq> 0 then clearFlags s
                     else if flagC s \<noteq> 0 then s\<lparr>flagO := 1\<rparr> else clearFlags s)"
      using assms by (simp add: consoleintr_char_def key_codes split: if_splits)
    then show ?thesis
      using Ao by (simp add: key_codes clearFlags_def)
  next
    case Al
    then have "s' = (if flagC s \<noteq> 0 \<and> flagO s \<noteq> 0
                     then clearFlags ((if menuStatus s \<noteq> 0 then loadBackground s
                                       else saveBackground s)
                            \<lparr>menuStatus := (if menuStatus s = 0 then 1 else 0)\<rparr>)
                     else clearFlags s)"
      using assms
      by (auto simp add: consoleintr_char_def key_codes Let_def menu_toggle_keeps)
    then show ?thesis
      using Al by (auto simp add: clearFlags_def)
  next
    case closed
    have keys: "c \<noteq> A CHR ''l''"
      using closed(1) by (simp add: default_case_def)
    show ?thesis
    proof (cases "c \<noteq> 0 \<and> input_e s - input_r s < of_nat INPUT_BUF")
      case True
      define c1 where "c1 = (if c = 0x0D then 0x0A else c)"
      define s2 where "s2 = (clearFlags s)\<lparr>input_buf := (input_buf (clearFlags s))
              (unat (input_e (clearFlags s)) mod INPUT_BUF := ucast c1),
            input_e := input_e (clearFlags s) + 1\<rparr>"
      from True closed assms obtain s3 where put: "consputc s2 c1 = Inr s3"
        and s': "s' = (if c1 = 0x0A \<or> c1 = C CHR ''D'' \<or>
                          input_e s3 = input_r s3 + of_nat INPUT_BUF
                       then s3\<lparr>input_w := input_e s3\<rparr> else s3)"
        unfolding default_case_def
        by (auto simp add: consoleintr_char_def Let_def c1_def s2_def split: sum.splits)
      have "backgroundBackup s3 = backgroundBackup s"
        using consputc_keeps[OF put] by (simp add: s2_def clearFlags_def)
      then show ?thesis
        using keys by (simp add: s')
    next
      case False
      then have "s' = s"
        using closed assms unfolding default_case_def
        by (auto simp add: consoleintr_char_def)
      then show ?thesis
        using keys by simp
    qed
  next
    case menu
    have keys: "c \<noteq> A CHR ''l''"
      using menu(1) by (simp add: default_case_def)
    have "s' = (if c \<noteq> 0 then clearFlags (menu_redraw s (ucast c))
                else menu_redraw s (ucast c))"
      using menu assms unfolding default_case_def
      by (auto simp add: consoleintr_char_def menu_redraw_def Let_def)
    then show ?thesis
      using keys by (simp add: clearFlags_def menu_redraw_keeps)
  qed
qed

text \<open>
  C3, as stated, fails: the menu toggles although another key comes between the three.
  With the buffer full and the menu closed, Alt-c, \<^verbatim>\<open>'x'\<close>, Alt-o, Alt-l opens the menu
  (the \<^verbatim>\<open>'x'\<close> is dropped without touching the flags); and from the initial state so does
  Alt-c, NUL, Alt-o, NUL, Alt-l.
\<close>

theorem toggle_with_key_between_counterexample:
  "menuStatus full_buffer = 0 \<and>
   \<not> isl (consoleintr_loop full_buffer [A CHR ''c'', 0x78, A CHR ''o'', A CHR ''l'']) \<and>
   menuStatus (projr (consoleintr_loop full_buffer
      [A CHR ''c'', 0x78, A CHR ''o'', A CHR ''l''])) = 1 \<and>
   menuStatus blank_console = 0 \<and>
   \<not> isl (consoleintr_loop blank_console [A CHR ''c'', 0, A CHR ''o'', 0, A CHR ''l'']) \<and>
   menuStatus (projr (consoleintr_loop blank_console
      [A CHR ''c'', 0, A CHR ''o'', 0, A CHR ''l''])) = 1"
  by (simp add: consoleintr_char_def key_codes full_buffer_def blank_console_def
      INPUT_BUF_def Let_def clearFlags_def menu_toggle_keeps)

text \<open>
  C3, as the code has it. \<^verbatim>\<open>menuStatus\<close> flips exactly at an Alt-l that finds both flags
  set, and that is when the snapshot (menu closed) or the restore (menu open) runs; any
  other character leaves the snapshot alone. If the flip happens at the third of three
  consecutive characters and the second is not ignored, the second is the Alt-o that
  found \<^verbatim>\<open>flagC\<close> set alone; if the first is not ignored either, it is Alt-c. An
  ignored character (NUL, or one dropped with the menu closed and the buffer full)
  changes neither the flags nor \<^verbatim>\<open>menuStatus\<close>, so it may come in between. From any
  state, Alt-c, Alt-o, Alt-o, Alt-l ends with both flags clear and nothing else changed
  (no toggle), and Alt-c, Alt-o, Alt-l flips \<^verbatim>\<open>menuStatus\<close> once.
\<close>

theorem toggle_only_on_sequence:
  assumes "consoleintr_char s0 c1 = Inr s1" and "consoleintr_char s1 c2 = Inr s2"
    and "consoleintr_char s2 c3 = Inr s3"
  shows "(menuStatus s3 \<noteq> menuStatus s2 \<longleftrightarrow>
            c3 = A CHR ''l'' \<and> flagC s2 \<noteq> 0 \<and> flagO s2 \<noteq> 0) \<and>
         (c3 = A CHR ''l'' \<and> flagC s2 \<noteq> 0 \<and> flagO s2 \<noteq> 0 \<longrightarrow>
            s3 = clearFlags ((if menuStatus s2 \<noteq> 0 then loadBackground s2 else saveBackground s2)
                    \<lparr>menuStatus := (if menuStatus s2 = 0 then 1 else 0)\<rparr>)) \<and>
         (\<not> (c3 = A CHR ''l'' \<and> flagC s2 \<noteq> 0 \<and> flagO s2 \<noteq> 0) \<longrightarrow>
            backgroundBackup s3 = backgroundBackup s2) \<and>
         (menuStatus s3 \<noteq> menuStatus s2 \<and> \<not> ignored s1 c2 \<longrightarrow>
            c2 = A CHR ''o'' \<and> flagC s1 \<noteq> 0 \<and> flagO s1 = 0) \<and>
         (menuStatus s3 \<noteq> menuStatus s2 \<and> \<not> ignored s1 c2 \<and> \<not> ignored s0 c1 \<longrightarrow>
            c1 = A CHR ''c'') \<and>
         (ignored s0 c1 \<longrightarrow>
            flagC s1 = flagC s0 \<and> flagO s1 = flagO s0 \<and> menuStatus s1 = menuStatus s0) \<and>
         consoleintr_loop s0 [A CHR ''c'', A CHR ''o'', A CHR ''o'', A CHR ''l''] =
           Inr (clearFlags s0) \<and>
         (\<exists>t. consoleintr_loop s0 [A CHR ''c'', A CHR ''o'', A CHR ''l''] = Inr t \<and>
              menuStatus t = (if menuStatus s0 = 0 then 1 else 0))"
proof -
  note f1 = consoleintr_char_flags[OF assms(1)]
    and f2 = consoleintr_char_flags[OF assms(2)]
    and f3 = consoleintr_char_flags[OF assms(3)]
  have ign: "ignored s c \<Longrightarrow> c \<noteq> A CHR ''c'' \<and> c \<noteq> A CHR ''o'' \<and> c \<noteq> A CHR ''l''" for s c
    by (auto simp add: ignored_def dropped_def default_case_def key_codes)
  have flip: "menuStatus s3 \<noteq> menuStatus s2 \<longleftrightarrow>
            c3 = A CHR ''l'' \<and> flagC s2 \<noteq> 0 \<and> flagO s2 \<noteq> 0"
    using f3 by (auto split: if_splits)
  have second: "flagC s2 \<noteq> 0 \<and> flagO s2 \<noteq> 0 \<and> \<not> ignored s1 c2 \<longrightarrow>
            c2 = A CHR ''o'' \<and> flagC s1 \<noteq> 0 \<and> flagO s1 = 0"
    using f2 by (auto simp add: key_codes split: if_splits)
  have first: "flagC s1 \<noteq> 0 \<and> flagO s1 = 0 \<and> \<not> ignored s0 c1 \<longrightarrow> c1 = A CHR ''c''"
    using f1 by (auto simp add: key_codes split: if_splits)
  have skip: "ignored s0 c1 \<longrightarrow>
            flagC s1 = flagC s0 \<and> flagO s1 = flagO s0 \<and> menuStatus s1 = menuStatus s0"
    using f1 ign[of s0 c1] by (auto simp add: key_codes split: if_splits)
  have cool: "consoleintr_loop s0 [A CHR ''c'', A CHR ''o'', A CHR ''o'', A CHR ''l''] =
           Inr (clearFlags s0)"
    by (simp add: consoleintr_char_def key_codes clearFlags_def)
  have col: "\<exists>t. consoleintr_loop s0 [A CHR ''c'', A CHR ''o'', A CHR ''l''] = Inr t \<and>
              menuStatus t = (if menuStatus s0 = 0 then 1 else 0)"
    by (simp add: consoleintr_char_def key_codes clearFlags_def Let_def menu_toggle_keeps)
  show ?thesis
    using flip second first skip cool col consoleintr_char_toggle[OF assms(3)]
    by blast
qed

theorem toggle_only_on_sequence_witness:
  "consoleintr_char blank_console (A CHR ''c'') = Inr armed_c \<and>
   consoleintr_char armed_c (A CHR ''o'') = Inr (armed_c\<lparr>flagO := 1\<rparr>) \<and>
   consoleintr_char (armed_c\<lparr>flagO := 1\<rparr>) (A CHR ''l'') =
     Inr (clearFlags ((saveBackground (armed_c\<lparr>flagO := 1\<rparr>))\<lparr>menuStatus := 1\<rparr>)) \<and>
   menuStatus (clearFlags ((saveBackground (armed_c\<lparr>flagO := 1\<rparr>))\<lparr>menuStatus := 1\<rparr>))
     \<noteq> menuStatus (armed_c\<lparr>flagO := 1\<rparr>) \<and>
   flagC (armed_c\<lparr>flagO := 1\<rparr>) \<noteq> 0 \<and> flagO (armed_c\<lparr>flagO := 1\<rparr>) \<noteq> 0 \<and>
   \<not> ignored armed_c (A CHR ''o'') \<and> \<not> ignored blank_console (A CHR ''c'') \<and>
   ignored armed_c 0 \<and> consoleintr_char armed_c 0 = Inr armed_c \<and>
   \<not> (A CHR ''o'' = A CHR ''l'' \<and> flagC armed_c \<noteq> 0 \<and> flagO armed_c \<noteq> 0) \<and>
   backgroundBackup (armed_c\<lparr>flagO := 1\<rparr>) = backgroundBackup armed_c"
proof -
  have st: "consoleintr_char blank_console (A CHR ''c'') = Inr armed_c"
    "consoleintr_char armed_c (A CHR ''o'') = Inr (armed_c\<lparr>flagO := 1\<rparr>)"
    "consoleintr_char (armed_c\<lparr>flagO := 1\<rparr>) (A CHR ''l'') =
       Inr (clearFlags ((saveBackground (armed_c\<lparr>flagO := 1\<rparr>))\<lparr>menuStatus := 1\<rparr>))"
    "consoleintr_char armed_c 0 = Inr armed_c"
    by (simp_all add: consoleintr_char_def key_codes armed_c_def blank_console_def Let_def
        menu_toggle_keeps)
  have ig: "\<not> ignored armed_c (A CHR ''o'')" "\<not> ignored blank_console (A CHR ''c'')"
    "ignored armed_c 0"
    by (simp_all add: ignored_def dropped_def default_case_def key_codes)
  show ?thesis
    using toggle_only_on_sequence[OF st(1) st(2) st(3)]
      toggle_only_on_sequence[OF st(4) st(2) st(3)] st ig
    by (simp add: key_codes armed_c_def blank_console_def clearFlags_def menu_toggle_keeps)
qed

text \<open>The kill-line loop, one iteration at a time.\<close>

lemma killLine_erase:
  assumes "input_e s \<noteq> input_w s"
    and "input_buf s (unat (input_e s - 1) mod INPUT_BUF) \<noteq> 0x0A"
    and "consputc (s\<lparr>input_e := input_e s - 1\<rparr>) BACKSPACE = Inr s1"
  shows "killLine s = killLine s1"
  using assms by (subst killLine.simps) simp

lemma killLine_stop:
  "input_e s = input_w s \<or> input_buf s (unat (input_e s - 1) mod INPUT_BUF) = 0x0A \<Longrightarrow>
   killLine s = Inr s"
  by (subst killLine.simps) auto

lemma menu_forward:
  assumes "default_case c" and "menuStatus s \<noteq> 0"
  shows "consoleintr_char s c =
           Inr (if c \<noteq> 0 then clearFlags (menu_redraw s (ucast c)) else menu_redraw s (ucast c))"
  using assms unfolding default_case_def
  by (auto simp add: consoleintr_char_def menu_redraw_def Let_def)

lemma menu_backspace_suppressed:
  assumes "c = C CHR ''H'' \<or> c = 0x7f" and "menuStatus s \<noteq> 0"
  shows "consoleintr_char s c = Inr (clearFlags s)"
  using assms by (auto simp add: consoleintr_char_def key_codes)

text \<open>
  C4 on the kill-line key. With the menu open and \<^verbatim>\<open>"abc"\<close> typed but not committed,
  Ctrl-U still runs the kill-line loop: the handler returns, the edit index is back at the
  write index, and three erase sequences (backspace, space, backspace) have gone to the
  serial port. Ctrl-H in the same state changes nothing but the flags.
\<close>

theorem menu_open_kill_line_erases:
  "menuStatus abc_typed_menu_open = 1 \<and>
   input_w abc_typed_menu_open = 0 \<and> input_e abc_typed_menu_open = 3 \<and>
   uart abc_typed_menu_open = [] \<and>
   \<not> isl (consoleintr_char abc_typed_menu_open (C CHR ''U'')) \<and>
   input_e (projr (consoleintr_char abc_typed_menu_open (C CHR ''U''))) = 0 \<and>
   uart (projr (consoleintr_char abc_typed_menu_open (C CHR ''U''))) =
     [0x08, 0x20, 0x08, 0x08, 0x20, 0x08, 0x08, 0x20, 0x08] \<and>
   consoleintr_char abc_typed_menu_open (C CHR ''H'') = Inr (clearFlags abc_typed_menu_open)"
proof -
  let ?s0 = abc_typed_menu_open
  have s0: "menuStatus ?s0 = 1" "input_w ?s0 = 0" "input_e ?s0 = 3" "uart ?s0 = []"
    "panicked ?s0 = 0" "uint (cursor ?s0) < 1920"
    "input_buf ?s0 = (\<lambda>_. 0)(0 := 0x61, 1 := 0x62, 2 := 0x63)"
    by (simp_all add: abc_typed_menu_open_def abc_typed_def blank_console_def)
  obtain s1 where p1: "consputc (?s0\<lparr>input_e := input_e ?s0 - 1\<rparr>) BACKSPACE = Inr s1"
    and c1: "uint (cursor s1) < 1920"
    using consputc_returns[of "?s0\<lparr>input_e := input_e ?s0 - 1\<rparr>" BACKSPACE] s0 by auto
  note k1 = consputc_keeps[OF p1]
  have s1: "input_w s1 = 0" "input_e s1 = 2" "uart s1 = [0x08, 0x20, 0x08]" "panicked s1 = 0"
    "input_buf s1 = (\<lambda>_. 0)(0 := 0x61, 1 := 0x62, 2 := 0x63)"
    using k1 s0 by simp_all
  obtain s2 where p2: "consputc (s1\<lparr>input_e := input_e s1 - 1\<rparr>) BACKSPACE = Inr s2"
    and c2: "uint (cursor s2) < 1920"
    using consputc_returns[of "s1\<lparr>input_e := input_e s1 - 1\<rparr>" BACKSPACE] s1 c1 by auto
  note k2 = consputc_keeps[OF p2]
  have s2: "input_w s2 = 0" "input_e s2 = 1" "panicked s2 = 0"
    "uart s2 = [0x08, 0x20, 0x08, 0x08, 0x20, 0x08]"
    "input_buf s2 = (\<lambda>_. 0)(0 := 0x61, 1 := 0x62, 2 := 0x63)"
    using k2 s1 by simp_all
  obtain s3 where p3: "consputc (s2\<lparr>input_e := input_e s2 - 1\<rparr>) BACKSPACE = Inr s3"
    and c3: "uint (cursor s3) < 1920"
    using consputc_returns[of "s2\<lparr>input_e := input_e s2 - 1\<rparr>" BACKSPACE] s2 c2 by auto
  note k3 = consputc_keeps[OF p3]
  have s3: "input_w s3 = 0" "input_e s3 = 0"
    "uart s3 = [0x08, 0x20, 0x08, 0x08, 0x20, 0x08, 0x08, 0x20, 0x08]"
    using k3 s2 by simp_all
  have "killLine ?s0 = killLine s1"
    by (rule killLine_erase[OF _ _ p1]) (simp_all add: s0 INPUT_BUF_def)
  also have "\<dots> = killLine s2"
    by (rule killLine_erase[OF _ _ p2]) (simp_all add: s1 INPUT_BUF_def)
  also have "\<dots> = killLine s3"
    by (rule killLine_erase[OF _ _ p3]) (simp_all add: s2 INPUT_BUF_def)
  also have "\<dots> = Inr s3"
    by (rule killLine_stop) (simp add: s3)
  finally have "consoleintr_char ?s0 (C CHR ''U'') = Inr (clearFlags s3)"
    by (simp add: consoleintr_char_def key_codes)
  moreover have "consoleintr_char ?s0 (C CHR ''H'') = Inr (clearFlags ?s0)"
    by (rule menu_backspace_suppressed) (simp_all add: s0)
  ultimately show ?thesis
    using s0 s3 by (simp add: clearFlags_def)
qed

section \<open>The claim about reading a line\<close>




text \<open>The marker after one byte: the first call returns the byte and leaves the read index
  on the marker; the next call consumes the marker and returns 0.\<close>

lemma consoleread_marker_pushed_back:
  "consoleread a_then_eof False 5 = (Return 1, [0x61], a_then_eof\<lparr>input_r := 1\<rparr>) \<and>
   consoleread (a_then_eof\<lparr>input_r := 1\<rparr>) False 5 =
     (Return 0, [], a_then_eof\<lparr>input_r := 2\<rparr>)"
proof -
  have 1: "consoleread_loop False 5 a_then_eof 5 [] =
           consoleread_loop False 5 (a_then_eof\<lparr>input_r := 1\<rparr>) 4 [0x61]"
    by (subst consoleread_loop.simps)
      (simp add: a_then_eof_def blank_console_def key_codes Let_def INPUT_BUF_def)
  have 2: "consoleread_loop False 5 (a_then_eof\<lparr>input_r := 1\<rparr>) 4 [0x61] =
           (Return 1, [0x61], a_then_eof\<lparr>input_r := 1\<rparr>)"
    by (subst consoleread_loop.simps)
      (simp add: a_then_eof_def blank_console_def key_codes Let_def INPUT_BUF_def)
  have 3: "consoleread_loop False 5 (a_then_eof\<lparr>input_r := 1\<rparr>) 5 [] =
           (Return 0, [], a_then_eof\<lparr>input_r := 2\<rparr>)"
    by (subst consoleread_loop.simps)
      (simp add: a_then_eof_def blank_console_def key_codes Let_def INPUT_BUF_def)
  show ?thesis
    by (simp add: consoleread_def 1 2 3)
qed

section \<open>The claim about the commit keys\<close>

lemma highlight_in_overlay:
  assumes "0 \<le> x" and "x < 16"
    and "nat (computeLowerBound x) \<le> i" and "i < nat (computeLowerBound x + 10)"
  shows "in_overlay i"
proof -
  define q where "q = nat (x div 2)"
  define a :: nat where "a = (if x mod 2 \<noteq> 0 then 69 else 58)"
  have "x div 2 \<le> 15 div 2"
    using assms(2) by (intro zdiv_mono1) simp_all
  then have q: "q \<le> 7"
    by (simp add: q_def)
  have "0 \<le> x div 2"
    using assms(1) by (simp add: pos_imp_zdiv_nonneg_iff)
  then have "computeLowerBound x = int (80 * Suc q + a)"
    using assms(1) by (simp add: computeLowerBound_def smod_nonneg sdiv_nonneg q_def a_def)
  then have lo: "80 * Suc q + a \<le> i" and hi: "i < 80 * Suc q + a + 10"
    using assms(3,4) by simp_all
  have a: "58 \<le> a" "a + 10 \<le> 80"
    by (simp_all add: a_def)
  have d: "i div 80 = Suc q"
    using lo hi a by (intro div_nat_eqI) simp_all
  have "i mod 80 = i - 80 * Suc q"
    using d by (simp add: modulo_nat_def)
  then have "57 \<le> i mod 80"
    using lo a by simp
  then show ?thesis
    using d q by (simp add: in_overlay_def)
qed

lemma menu_cell_bytes:
  "char_byte (ucast (((scast (m::cchar) :: cint) AND 0xff) OR 0x0f00)) = m \<and>
   attr_byte (ucast (((scast (m::cchar) :: cint) AND 0xff) OR 0x0f00)) = 0x0F"
proof -
  have f: "(0x0f00 :: cint) = push_bit 8 (mask 4)" "(0x0F :: cchar) = mask 4"
    by (simp_all add: mask_eq_decr_exp)
  have "char_byte (ucast (((scast m :: cint) AND 0xff) OR 0x0f00)) = m"
    unfolding char_byte_def ff_mask f
    by (rule bit_word_eqI) (auto simp add: bit_simps)
  moreover have "attr_byte (ucast (((scast m :: cint) AND 0xff) OR 0x0f00)) = 0x0F"
    unfolding attr_byte_def ff_mask f
    by (rule bit_word_eqI) (auto simp add: bit_simps)
  ultimately show ?thesis by simp
qed

lemma highlight_bytes:
  "char_byte (painted 0xf000 x) = char_byte x \<and> attr_byte (painted 0xf000 x) = 0xF0"
proof -
  have "(0xf000 :: cint) AND 0xff = 0"
    by simp
  then have "(ucast (0xf000 :: cint) :: cchar) = 0"
    by (rule ucast_low_zero)
  moreover have "color_attr 0xf000 = 0xF0"
    by (simp add: color_attr_def)
  ultimately show ?thesis
    by (simp only: char_byte_painted attr_byte_painted) simp
qed

lemma menu_redraw_commit:
  assumes "c = of_char CHR ''e'' \<or> c = of_char CHR ''r''"
  shows "menu_redraw s c =
     (handleInput s c)\<lparr>crt := (\<lambda>i.
        if selected_cell s i
        then painted 0xf000
               (if in_overlay i
                then ucast (((scast (menustr ! overlay_index i) :: cint) AND 0xff) OR 0x0f00)
                else crt (handleInput s c) i)
        else if in_overlay i
        then ucast (((scast (menustr ! overlay_index i) :: cint) AND 0xff) OR 0x0f00)
        else crt (handleInput s c) i)\<rparr>"
proof -
  have sel: "currentSelection (handleInput s c) = currentSelection s"
    using assms by (auto simp add: handleInput_def menu_keys repaint_eq getColor_def
        getBrightColor_def)
  show ?thesis
    by (auto simp add: menu_redraw_def Let_def displaySelection_eq showMenu_eq sel
        selected_cell_def fun_eq_iff intro!: crt_update_cong)
qed

text \<open>
  C10, as stated, fails on the cells of the menu region. With the menu open over a blank
  screen, the key \<^verbatim>\<open>'e'\<close> sets \<^verbatim>\<open>currentColor\<close> to \<^verbatim>\<open>0x2700\<close>, but when the handler
  returns cell 57 holds \<^verbatim>\<open>0x0F2F\<close>: the attribute is the menu's \<^verbatim>\<open>0x0F\<close> and not the
  new \<^verbatim>\<open>0x27\<close>, and the character is the menu's \<^verbatim>\<open>'/'\<close> and not the blank that was
  there.
\<close>

theorem commit_overlay_cells_counterexample:
  "menuStatus green_bg_selected = 1 \<and> in_overlay 57 \<and>
   crt green_bg_selected 57 = 0x0720 \<and>
   char_byte (crt green_bg_selected 57) = 0x20 \<and>
   \<not> isl (consoleintr_char green_bg_selected 0x65) \<and>
   currentColor (projr (consoleintr_char green_bg_selected 0x65)) = 0x2700 \<and>
   color_attr (currentColor (projr (consoleintr_char green_bg_selected 0x65))) = 0x27 \<and>
   crt (projr (consoleintr_char green_bg_selected 0x65)) 57 = 0x0F2F \<and>
   attr_byte (crt (projr (consoleintr_char green_bg_selected 0x65)) 57) = 0x0F \<and>
   char_byte (crt (projr (consoleintr_char green_bg_selected 0x65)) 57) = 0x2F"
proof -
  have st: "currentSelection green_bg_selected = 5" "currentColor green_bg_selected = 0x0700"
    "crt green_bg_selected = (\<lambda>_. 0x0720)" "menuStatus green_bg_selected = 1"
    by (simp_all add: green_bg_selected_def blank_console_def)
  have dflt: "default_case 0x65"
    by (simp add: default_case_def key_codes)
  have step: "consoleintr_char green_bg_selected 0x65 =
                Inr (clearFlags (menu_redraw green_bg_selected 0x65))"
    using menu_forward[OF dflt, of green_bg_selected] by (simp add: st)
  have key: "(0x65 :: cchar) = of_char CHR ''e'' \<or> (0x65 :: cchar) = of_char CHR ''r''"
    by simp
  have cells: "in_overlay 57" "overlay_index 57 = 0" "\<not> selected_cell green_bg_selected 57"
    by (simp_all add: in_overlay_def overlay_index_def selected_cell_def st
        computeLowerBound_def smod_nonneg sdiv_nonneg)
  have menu: "menustr ! 0 = 0x2F"
    by (simp add: menustr_def)
  have col: "currentColor (handleInput green_bg_selected 0x65) = 0x2700"
    by (simp add: handleInput_def repaint_eq getColor_def st clrs_def smod_nonneg)
  have cell57: "crt (clearFlags (menu_redraw green_bg_selected 0x65)) 57 = 0x0F2F"
    by (subst menu_redraw_commit[OF key]) (simp add: clearFlags_def cells menu)
  have colour: "currentColor (clearFlags (menu_redraw green_bg_selected 0x65)) = 0x2700"
    by (subst menu_redraw_commit[OF key]) (simp add: clearFlags_def col)
  have bytes: "color_attr 0x2700 = 0x27" "attr_byte 0x0F2F = 0x0F" "char_byte 0x0F2F = 0x2F"
    "char_byte 0x0720 = 0x20"
    by (simp_all add: color_attr_def attr_byte_def char_byte_def)
  show ?thesis
    unfolding step by (simp add: st cells cell57 colour bytes)
qed

text \<open>
  C10, as the code has it. With the menu open, a selection in 0..15 and a \<^verbatim>\<open>currentColor\<close>
  whose low byte is 0 (as it is initially and stays under both commits), the key \<^verbatim>\<open>'e'\<close>
  or \<^verbatim>\<open>'r'\<close> in \<^verbatim>\<open>consoleintr\<close> returns with both flags clear and only the screen and
  \<^verbatim>\<open>currentColor\<close> changed. The new \<^verbatim>\<open>currentColor\<close> has the nibble of the selected column
  (background for an odd selection, foreground for an even one) set to that of
  \<^verbatim>\<open>clrs[selection]\<close>, plus 8 for \<^verbatim>\<open>'r'\<close>, and the other nibble as before.
  \<^verbatim>\<open>handleInput\<close> gives every cell 0..1999 the attribute byte of the new
  \<^verbatim>\<open>currentColor\<close> and keeps its character; of these, the cells outside the menu region are
  like that when the handler returns. The 230 cells of the menu region are drawn again by
  \<^verbatim>\<open>showMenu\<close> and \<^verbatim>\<open>displaySelection\<close> before the handler returns: they hold the
  characters of \<^verbatim>\<open>menustr\<close> with attribute \<^verbatim>\<open>0x0F\<close>, or \<^verbatim>\<open>0xF0\<close> on the ten cells of
  the selected entry. The cells from 2000 on are as they were.
\<close>

theorem commit_repaints_every_cell:
  assumes "0 \<le> currentSelection s" and "currentSelection s < 16"
    and "currentColor s AND 0xff = 0" and "menuStatus s \<noteq> 0"
    and "c = of_char CHR ''e'' \<or> c = of_char CHR ''r''"
  shows "\<exists>s'. consoleintr_char s (ucast c) = Inr s' \<and>
           s' = s\<lparr>crt := crt s', currentColor := currentColor s', flagC := 0, flagO := 0\<rparr> \<and>
           currentColor s' = currentColor (handleInput s c) \<and>
           currentColor s' AND 0xff = 0 \<and>
           (currentSelection s mod 2 = 1 \<longrightarrow>
              bg_nibble (currentColor s') =
                bg_nibble (clrs ! nat (currentSelection s)) +
                (if c = of_char CHR ''r'' then 8 else 0) \<and>
              fg_nibble (currentColor s') = fg_nibble (currentColor s)) \<and>
           (currentSelection s mod 2 = 0 \<longrightarrow>
              fg_nibble (currentColor s') =
                fg_nibble (clrs ! nat (currentSelection s)) +
                (if c = of_char CHR ''r'' then 8 else 0) \<and>
              bg_nibble (currentColor s') = bg_nibble (currentColor s)) \<and>
           (\<forall>i<2000. attr_byte (crt (handleInput s c) i) = color_attr (currentColor s') \<and>
                      char_byte (crt (handleInput s c) i) = char_byte (crt s i)) \<and>
           (\<forall>i<2000. \<not> in_overlay i \<longrightarrow>
              attr_byte (crt s' i) = color_attr (currentColor s') \<and>
              char_byte (crt s' i) = char_byte (crt s i)) \<and>
           (\<forall>i. in_overlay i \<longrightarrow>
              char_byte (crt s' i) = menustr ! overlay_index i \<and>
              attr_byte (crt s' i) = (if selected_cell s i then 0xF0 else 0x0F)) \<and>
           (\<forall>i\<ge>2000. crt s' i = crt s i)"
proof -
  define t where "t = (if c = of_char CHR ''e'' then getColor s else getBrightColor s)"
  have ne: "(of_char CHR ''e'' :: cchar) \<noteq> of_char CHR ''r''"
    by simp
  have run: "handleInput s c = repaint t"
    using assms(5) by (auto simp add: handleInput_def t_def menu_keys)
  have frame_t: "t = s\<lparr>currentColor := currentColor t\<rparr>"
    using getColor_frame[of s] by (auto simp add: t_def)
  have crt_t: "crt t = crt s"
    by (simp add: t_def getColor_def getBrightColor_def)
  have low32: "currentColor t AND 0xff = 0"
    using getColor_low_byte[OF assms(1,2)] assms(3) by (simp add: t_def)
  then have low: "(ucast (currentColor t) :: cchar) = 0"
    by (rule ucast_low_zero)
  have odd: "currentSelection s mod 2 = 1 \<longrightarrow>
              bg_nibble (currentColor t) =
                bg_nibble (clrs ! nat (currentSelection s)) +
                (if c = of_char CHR ''r'' then 8 else 0) \<and>
              fg_nibble (currentColor t) = fg_nibble (currentColor s)"
    using getColor_odd[OF assms(1,2)] assms(5) ne by (auto simp add: t_def)
  have even: "currentSelection s mod 2 = 0 \<longrightarrow>
              fg_nibble (currentColor t) =
                fg_nibble (clrs ! nat (currentSelection s)) +
                (if c = of_char CHR ''r'' then 8 else 0) \<and>
              bg_nibble (currentColor t) = bg_nibble (currentColor s)"
    using getColor_even[OF assms(1,2)] assms(5) ne by (auto simp add: t_def)
  have col_h: "currentColor (handleInput s c) = currentColor t"
    by (simp add: run repaint_eq)
  have mid: "\<forall>i<2000. attr_byte (crt (handleInput s c) i) = color_attr (currentColor t) \<and>
                     char_byte (crt (handleInput s c) i) = char_byte (crt s i)"
    using low by (simp add: run repaint_eq crt_t attr_byte_painted char_byte_painted)
  have above: "\<forall>i\<ge>2000. crt (handleInput s c) i = crt s i"
    by (simp add: run repaint_eq crt_t)
  have key: "(ucast c :: cint) = 0x65 \<or> (ucast c :: cint) = 0x72"
    using assms(5) by (auto simp add: menu_keys)
  then have dflt: "default_case (ucast c)" and nz: "(ucast c :: cint) \<noteq> 0"
    by (auto simp add: default_case_def key_codes)
  have same: "(ucast (ucast c :: cint) :: cchar) = c"
    using assms(5) by (auto simp add: menu_keys)
  let ?s' = "clearFlags (menu_redraw s c)"
  have step: "consoleintr_char s (ucast c) = Inr ?s'"
    using menu_forward[OF dflt assms(4)] nz by (simp add: same)
  note redraw = menu_redraw_commit[OF assms(5), of s]
  have col: "currentColor ?s' = currentColor t"
    by (subst redraw) (simp add: clearFlags_def col_h)
  have sel_t: "currentSelection t = currentSelection s"
    by (simp add: t_def getColor_def getBrightColor_def)
  have sel_r: "currentSelection (menu_redraw s c) = currentSelection s"
    by (subst redraw) (simp add: run repaint_eq sel_t)
  have frame:
    "?s' = s\<lparr>crt := crt ?s', currentColor := currentColor ?s', flagC := 0, flagO := 0\<rparr>"
    by (rule console.equality) (simp_all add: clearFlags_def menu_redraw_keeps sel_r)
  have sel_in: "selected_cell s i \<Longrightarrow> in_overlay i" for i
    using highlight_in_overlay[OF assms(1,2), of i] by (simp add: selected_cell_def)
  have outside: "crt ?s' i = crt (handleInput s c) i" if "\<not> in_overlay i" for i
    using that sel_in[of i] by (subst redraw) (auto simp add: clearFlags_def)
  have inside: "char_byte (crt ?s' i) = menustr ! overlay_index i \<and>
                attr_byte (crt ?s' i) = (if selected_cell s i then 0xF0 else 0x0F)"
    if "in_overlay i" for i
    using that by (subst (1 2) redraw) (simp add: clearFlags_def menu_cell_bytes highlight_bytes)
  have over: "\<not> in_overlay i" if "2000 \<le> i" for i
  proof -
    have "2000 div 80 \<le> i div 80"
      using that by (rule div_le_mono)
    then show ?thesis
      by (simp add: in_overlay_def)
  qed
  have c_out: "\<forall>i<2000. \<not> in_overlay i \<longrightarrow>
              attr_byte (crt ?s' i) = color_attr (currentColor ?s') \<and>
              char_byte (crt ?s' i) = char_byte (crt s i)"
    using mid outside by (simp add: col)
  have c_in: "\<forall>i. in_overlay i \<longrightarrow>
              char_byte (crt ?s' i) = menustr ! overlay_index i \<and>
              attr_byte (crt ?s' i) = (if selected_cell s i then 0xF0 else 0x0F)"
    using inside by blast
  have c_above: "\<forall>i\<ge>2000. crt ?s' i = crt s i"
    using outside over above by simp
  have c_mid: "\<forall>i<2000. attr_byte (crt (handleInput s c) i) = color_attr (currentColor ?s') \<and>
                      char_byte (crt (handleInput s c) i) = char_byte (crt s i)"
    using mid by (simp add: col)
  have c_col: "currentColor ?s' = currentColor (handleInput s c)"
    "currentColor ?s' AND 0xff = 0"
    using low32 by (simp_all add: col col_h)
  have c_odd: "currentSelection s mod 2 = 1 \<longrightarrow>
              bg_nibble (currentColor ?s') =
                bg_nibble (clrs ! nat (currentSelection s)) +
                (if c = of_char CHR ''r'' then 8 else 0) \<and>
              fg_nibble (currentColor ?s') = fg_nibble (currentColor s)"
    using odd by (simp only: col)
  have c_even: "currentSelection s mod 2 = 0 \<longrightarrow>
              fg_nibble (currentColor ?s') =
                fg_nibble (clrs ! nat (currentSelection s)) +
                (if c = of_char CHR ''r'' then 8 else 0) \<and>
              bg_nibble (currentColor ?s') = bg_nibble (currentColor s)"
    using even by (simp only: col)
  from step frame c_col c_odd c_even c_mid c_out c_in c_above
  show ?thesis
    by (intro exI[of _ ?s'] conjI)
qed

theorem commit_repaints_every_cell_witness:
  "(0::int) \<le> currentSelection green_bg_selected \<and> currentSelection green_bg_selected < 16 \<and>
   currentColor green_bg_selected AND 0xff = 0 \<and> menuStatus green_bg_selected \<noteq> 0 \<and>
   ((of_char CHR ''r'' :: cchar) = of_char CHR ''e'' \<or>
    (of_char CHR ''r'' :: cchar) = of_char CHR ''r'') \<and>
   currentSelection green_bg_selected mod 2 = 1 \<and>
   (5::nat) < 2000 \<and> \<not> in_overlay 5 \<and> in_overlay 57 \<and> in_overlay 309 \<and>
   \<not> selected_cell green_bg_selected 57 \<and> selected_cell green_bg_selected 309 \<and>
   (2000::nat) \<le> 2000 \<and>
   (\<exists>s'. consoleintr_char green_bg_selected 0x72 = Inr s' \<and>
         currentColor s' = 0xA700 \<and> bg_nibble (currentColor s') = 10 \<and>
         fg_nibble (currentColor s') = 7 \<and>
         attr_byte (crt (handleInput green_bg_selected 0x72) 57) = 0xA7 \<and>
         attr_byte (crt s' 5) = 0xA7 \<and> char_byte (crt s' 5) = 0x20 \<and>
         attr_byte (crt s' 57) = 0x0F \<and> char_byte (crt s' 57) = 0x2F \<and>
         attr_byte (crt s' 309) = 0xF0 \<and> char_byte (crt s' 309) = 0x47 \<and>
         crt s' 2000 = 0x0720)"
proof -
  have st: "currentSelection green_bg_selected = 5" "currentColor green_bg_selected = 0x0700"
    "crt green_bg_selected = (\<lambda>_. 0x0720)" "menuStatus green_bg_selected = 1"
    by (simp_all add: green_bg_selected_def blank_console_def)
  have key: "(of_char CHR ''r'' :: cchar) = 0x72" "(ucast (0x72 :: cchar) :: cint) = 0x72"
    by simp_all
  have col: "currentColor (handleInput green_bg_selected 0x72) = 0xA700"
    by (simp add: handleInput_def repaint_eq getBrightColor_def st clrs_def smod_nonneg)
  have bytes: "color_attr 0xA700 = 0xA7" "char_byte 0x0720 = 0x20"
    "bg_nibble (clrs ! 5) = 2" "fg_nibble 0x0700 = 7"
    by (simp_all add: color_attr_def char_byte_def bg_nibble_def fg_nibble_def clrs_def)
  have cells: "\<not> in_overlay 5" "in_overlay 57" "in_overlay 309"
    "overlay_index 57 = 0" "overlay_index 309 = 81"
    "\<not> selected_cell green_bg_selected 57" "selected_cell green_bg_selected 309"
    by (simp_all add: in_overlay_def overlay_index_def selected_cell_def st
        computeLowerBound_def smod_nonneg sdiv_nonneg)
  have menu: "menustr ! 0 = 0x2F" "menustr ! 81 = 0x47"
    by (simp_all add: menustr_def)
  have hyp: "0 \<le> currentSelection green_bg_selected" "currentSelection green_bg_selected < 16"
    "currentColor green_bg_selected AND 0xff = 0" "menuStatus green_bg_selected \<noteq> 0"
    "(0x72 :: cchar) = of_char CHR ''e'' \<or> (0x72 :: cchar) = of_char CHR ''r''"
    by (simp_all add: st)
  from commit_repaints_every_cell[OF hyp] obtain s' where s':
    "consoleintr_char green_bg_selected 0x72 = Inr s'"
    "currentColor s' = 0xA700"
    "bg_nibble (currentColor s') = 10" "fg_nibble (currentColor s') = 7"
    "\<forall>i<2000. attr_byte (crt (handleInput green_bg_selected 0x72) i) = 0xA7 \<and>
        char_byte (crt (handleInput green_bg_selected 0x72) i) = 0x20"
    "\<forall>i<2000. \<not> in_overlay i \<longrightarrow> attr_byte (crt s' i) = 0xA7 \<and> char_byte (crt s' i) = 0x20"
    "\<forall>i. in_overlay i \<longrightarrow> char_byte (crt s' i) = menustr ! overlay_index i \<and>
        attr_byte (crt s' i) = (if selected_cell green_bg_selected i then 0xF0 else 0x0F)"
    "\<forall>i\<ge>2000. crt s' i = 0x0720"
    unfolding key col st bytes by (auto simp add: bytes)
  have "attr_byte (crt (handleInput green_bg_selected 0x72) 57) = 0xA7"
    using s'(5) by simp
  moreover have "attr_byte (crt s' 5) = 0xA7 \<and> char_byte (crt s' 5) = 0x20"
    using s'(6) cells(1) by simp
  moreover have "attr_byte (crt s' 57) = 0x0F \<and> char_byte (crt s' 57) = 0x2F"
    using s'(7) cells by (simp add: menu)
  moreover have "attr_byte (crt s' 309) = 0xF0 \<and> char_byte (crt s' 309) = 0x47"
    using s'(7) cells by (simp add: menu)
  moreover have "crt s' 2000 = 0x0720"
    using s'(8) by simp
  ultimately show ?thesis
    using s'(1,2,3,4) cells by (auto simp add: st)
qed

end
